theory Spec2Isabelle
  imports Main
begin

section \<open>Settings: the palette and the colour names (settings.py)\<close>

text \<open>A colour is a tuple of three Python ints.\<close>

type_synonym colour = "int \<times> int \<times> int"

definition PACIFIC_POINT :: colour where
  "PACIFIC_POINT = (1, 128, 181)"

definition OLD_OLIVE :: colour where
  "OLD_OLIVE = (138, 151, 71)"

definition REAL_RED :: colour where
  "REAL_RED = (199, 44, 58)"

definition DAFFODIL_DELIGHT :: colour where
  "DAFFODIL_DELIGHT = (255, 211, 92)"

definition COLOUR_LIST :: "colour list" where
  "COLOUR_LIST = [PACIFIC_POINT, REAL_RED, OLD_OLIVE, DAFFODIL_DELIGHT]"

text \<open>The exceptions the modelled code can raise.\<close>

datatype error =
  UnknownColourError | TypeError | ZeroDivisionError | IndexError | ValueError
  | OverflowError | RecursionError

text \<open>The dict literal of \<open>colour_name\<close>, in the order it is written.\<close>

definition colour_names :: "(colour \<times> string) list" where
  "colour_names =
     [(PACIFIC_POINT, ''Pacific Point''),
      (REAL_RED, ''Real Red''),
      (OLD_OLIVE, ''Old Olive''),
      (DAFFODIL_DELIGHT, ''Daffodil Delight'')]"

definition colour_name :: "colour \<Rightarrow> error + string" where
  "colour_name c =
     (case map_of colour_names c of
        Some name \<Rightarrow> Inr name
      | None \<Rightarrow> Inl UnknownColourError)"

section \<open>The board and the actions (blocks/block.py and blocks/actions.py, consumed only)\<close>

text \<open>
  Modelled from the spec: the Block class itself (blocks/block.py) is not part of the
  sources; its attributes are the ones the code reads: \<open>position\<close>, \<open>size\<close>
  (here \<open>bsize\<close>), \<open>colour\<close> (None on an internal node), \<open>level\<close>,
  \<open>max_depth\<close> and \<open>children\<close>.
\<close>

datatype block =
  Block (position: "int \<times> int") (bsize: int) (colour: "colour option")
        (level: int) (max_depth: int) (children: "block list")

text \<open>
  Modelled from the spec: blocks/actions.py is not part of the sources; the actions are
  the names player.py imports from it.
\<close>

datatype action =
  ROTATE_CLOCKWISE | ROTATE_COUNTER_CLOCKWISE | SWAP_HORIZONTAL | SWAP_VERTICAL
  | SMASH | PASS | PAINT | COMBINE

section \<open>Point location (player.py, \<open>_get_block\<close>)\<close>

text \<open>The \<open>for child in block.children\<close> loop: the first result that is not None.\<close>

fun first_found :: "'a option list \<Rightarrow> 'a option" where
  "first_found [] = None"
| "first_found (None # rs) = first_found rs"
| "first_found (Some r # rs) = Some r"

fun get_block :: "block \<Rightarrow> int \<times> int \<Rightarrow> int \<Rightarrow> block option" where
  "get_block (Block pos sz col lvl md cs) location lv =
     (let bx = fst pos; by = snd pos; lx = fst location; ly = snd location in
      if \<not> (bx \<le> lx \<and> lx < bx + sz \<and> by \<le> ly \<and> ly < by + sz) then None
      else if lv = lvl then Some (Block pos sz col lvl md cs)
      else if col \<noteq> None then Some (Block pos sz col lvl md cs)
      else first_found (map (\<lambda>child. get_block child location lv) cs))"

section \<open>The human player (player.py, class HumanPlayer)\<close>

text \<open>The two attributes of the human player that \<open>generate_move\<close> reads and writes.\<close>

record human_player =
  hp_level :: int
  hp_desired_action :: "action option"

text \<open>\<open>get_selected_block\<close>: the mouse position is read from pygame; here it is an input.\<close>

definition get_selected_block :: "human_player \<Rightarrow> int \<times> int \<Rightarrow> block \<Rightarrow> block option" where
  "get_selected_block p mouse_pos board = get_block board mouse_pos (hp_level p)"

definition correct_level :: "human_player \<Rightarrow> block \<Rightarrow> human_player" where
  "correct_level p board = p\<lparr>hp_level := max 0 (min (hp_level p) (max_depth board))\<rparr>"

text \<open>\<open>HumanPlayer.generate_move\<close>: the move returned and the player afterwards.\<close>

definition human_generate_move ::
  "human_player \<Rightarrow> int \<times> int \<Rightarrow> block \<Rightarrow> (action \<times> block) option \<times> human_player" where
  "human_generate_move p mouse_pos board =
     (case (get_selected_block p mouse_pos board, hp_desired_action p) of
        (Some blk, Some act) \<Rightarrow> (Some (act, blk), p\<lparr>hp_desired_action := None\<rparr>)
      | _ \<Rightarrow> (None, (correct_level p board)\<lparr>hp_desired_action := None\<rparr>))"

section \<open>Randomness\<close>

text \<open>
  The random module is modelled by an explicit source of raw draws, threaded through the
  calls: each call of \<open>random.choice\<close> or \<open>random.randint\<close> consumes the next raw
  value. Every value of the range is reached by some raw value.
\<close>

type_synonym entropy = "nat \<Rightarrow> nat"

definition next_raw :: "entropy \<Rightarrow> nat \<times> entropy" where
  "next_raw e = (e 0, \<lambda>i. e (Suc i))"

text \<open>\<open>random.choice(seq)\<close>: IndexError on an empty sequence.\<close>

definition choice :: "'a list \<Rightarrow> entropy \<Rightarrow> error + ('a \<times> entropy)" where
  "choice seq e =
     (if seq = [] then Inl IndexError
      else Inr (seq ! (fst (next_raw e) mod length seq), snd (next_raw e)))"

text \<open>\<open>random.randint(a, b)\<close>, both ends included: ValueError on an empty range.\<close>

definition randint :: "int \<Rightarrow> int \<Rightarrow> entropy \<Rightarrow> error + (int \<times> entropy)" where
  "randint a b e =
     (if b < a then Inl ValueError
      else Inr (a + int (fst (next_raw e)) mod (b - a + 1), snd (next_raw e)))"

section \<open>Goals (goal.py, \<open>generate_goals\<close>)\<close>

datatype goal = PerimeterGoal (goal_colour: colour) | BlobGoal (goal_colour: colour)

text \<open>
  The loop of \<open>generate_goals\<close>, with the iterations left, the colours not yet drawn
  and the goals appended so far.
\<close>

fun generate_goals_loop ::
  "nat \<Rightarrow> colour list \<Rightarrow> goal list \<Rightarrow> entropy \<Rightarrow> error + goal list" where
  "generate_goals_loop 0 colours final e = Inr final"
| "generate_goals_loop (Suc k) colours final e =
     (case choice colours e of
        Inl err \<Rightarrow> Inl err
      | Inr (col, e1) \<Rightarrow>
          (case randint 1 2 e1 of
             Inl err \<Rightarrow> Inl err
           | Inr (goal_type, e2) \<Rightarrow>
               if goal_type = 1
               then generate_goals_loop k (remove1 col colours) (final @ [BlobGoal col]) e2
               else generate_goals_loop k (remove1 col colours) (final @ [PerimeterGoal col]) e2))"

text \<open>\<open>range(0, num_goals)\<close> is empty for a negative \<open>num_goals\<close>.\<close>

definition generate_goals :: "int \<Rightarrow> entropy \<Rightarrow> error + goal list" where
  "generate_goals num_goals e = generate_goals_loop (nat num_goals) COLOUR_LIST [] e"

section \<open>Flattening a board (goal.py, \<open>flatten\<close>)\<close>

text \<open>A cell of the grid under construction holds a colour, or still Python's None.\<close>

type_synonym cell = "colour option"

type_synonym grid = "cell list list"

text \<open>A loop whose body may raise: the first exception ends it.\<close>

fun fold_err :: "('a \<Rightarrow> 's \<Rightarrow> error + 's) \<Rightarrow> 'a list \<Rightarrow> 's \<Rightarrow> error + 's" where
  "fold_err f [] s = Inr s"
| "fold_err f (x # xs) s =
     (case f x s of Inl err \<Rightarrow> Inl err | Inr s' \<Rightarrow> fold_err f xs s')"

text \<open>
  Indexing a Python list of length \<open>n\<close> with an int: a negative index counts from the
  end, anything else out of range raises IndexError.
\<close>

definition py_index :: "nat \<Rightarrow> int \<Rightarrow> nat option" where
  "py_index n i =
     (if 0 \<le> i \<and> i < int n then Some (nat i)
      else if - int n \<le> i \<and> i < 0 then Some (nat (int n + i))
      else None)"

text \<open>The read \<open>grid[x][y]\<close>.\<close>

definition get_cell :: "'a list list \<Rightarrow> int \<Rightarrow> int \<Rightarrow> error + 'a" where
  "get_cell g x y =
     (case py_index (length g) x of
        None \<Rightarrow> Inl IndexError
      | Some xi \<Rightarrow>
          (case py_index (length (g ! xi)) y of
             None \<Rightarrow> Inl IndexError
           | Some yi \<Rightarrow> Inr (g ! xi ! yi)))"

text \<open>The assignment \<open>grid[x][y] = v\<close>.\<close>

definition set_cell :: "'a list list \<Rightarrow> int \<Rightarrow> int \<Rightarrow> 'a \<Rightarrow> error + 'a list list" where
  "set_cell g x y v =
     (case py_index (length g) x of
        None \<Rightarrow> Inl IndexError
      | Some xi \<Rightarrow>
          (case py_index (length (g ! xi)) y of
             None \<Rightarrow> Inl IndexError
           | Some yi \<Rightarrow> Inr (g[xi := (g ! xi)[yi := v]])))"

text \<open>
  The index pairs \<open>(i, j)\<close> of \<open>for i in range(n): for j in range(n)\<close>, in the order
  the loops visit them.
\<close>

definition loop_pairs :: "nat \<Rightarrow> (nat \<times> nat) list" where
  "loop_pairs n = List.product [0..<n] [0..<n]"

text \<open>The cells a leaf writes: \<open>final[j][i]\<close> for every \<open>(i, j)\<close>.\<close>

definition leaf_targets :: "nat \<Rightarrow> (int \<times> int) list" where
  "leaf_targets n = map (\<lambda>(i, j). (int j, int i)) (loop_pairs n)"

text \<open>
  The cells the splice of one child writes, each with the cell of \<open>temp\<close> it reads:
  \<open>final[x][y] = temp[j][i]\<close> with \<open>x\<close> and \<open>y\<close> as the source computes them.
\<close>

definition splice_targets ::
  "int \<times> int \<Rightarrow> int \<Rightarrow> int \<times> int \<Rightarrow> nat \<Rightarrow> ((int \<times> int) \<times> (int \<times> int)) list" where
  "splice_targets bpos unit_size cpos n =
     map (\<lambda>(i, j).
            (((fst cpos - fst bpos) div unit_size + int j,
              (snd cpos - snd bpos) div unit_size + int i),
             (int j, int i)))
         (loop_pairs n)"

text \<open>
  The two inner loops over one child's grid \<open>temp\<close>. The divisions by \<open>unit_size\<close>
  raise ZeroDivisionError in the first iteration when it is 0.
\<close>

definition splice_child :: "int \<times> int \<Rightarrow> int \<Rightarrow> int \<times> int \<Rightarrow> grid \<Rightarrow> grid \<Rightarrow> error + grid" where
  "splice_child bpos unit_size cpos temp final =
     fold_err
       (\<lambda>((x, y), (j, i)) final.
          if unit_size = 0 then Inl ZeroDivisionError
          else (case get_cell temp j i of
                  Inl err \<Rightarrow> Inl err
                | Inr v \<Rightarrow> set_cell final x y v))
       (splice_targets bpos unit_size cpos (length temp)) final"

text \<open>An int that does not fit a float: converting it raises OverflowError.\<close>

definition float_overflow :: "int \<Rightarrow> bool" where
  "float_overflow i \<longleftrightarrow> 2 ^ 1024 - 2 ^ 970 \<le> \<bar>i\<bar>"

text \<open>
  \<open>flatten\<close>. With \<open>max_depth < level\<close> the power \<open>2 ** (max_depth - level)\<close> is
  a float: computing it, or the floor division of \<open>block.size\<close> by it, raises
  OverflowError when the exponent or the size does not fit a float; the division raises
  ZeroDivisionError when the power has underflowed to \<open>0.0\<close>, which it does from
  the exponent \<open>-1075\<close> on; otherwise \<open>range(size)\<close> raises TypeError.
\<close>

fun flatten :: "block \<Rightarrow> error + grid" where
  "flatten (Block pos sz col lvl md cs) =
     (if md - lvl < 0 then
        (if float_overflow (md - lvl) \<or> float_overflow sz then Inl OverflowError
         else if md - lvl \<le> - 1075 then Inl ZeroDivisionError
         else Inl TypeError)
      else
        let size = (2::nat) ^ nat (md - lvl);
            unit_size = sz div int size;
            final = replicate size (replicate size None)
        in case col of
             Some c \<Rightarrow>
               fold_err (\<lambda>(x, y) final. set_cell final x y (Some c)) (leaf_targets size) final
           | None \<Rightarrow>
               fold_err
                 (\<lambda>(cpos, r) final.
                    case r of
                      Inl err \<Rightarrow> Inl err
                    | Inr temp \<Rightarrow> splice_child pos unit_size cpos temp final)
                 (map (\<lambda>child. (position child, flatten child)) cs) final)"

text \<open>
  The cells of its own grid that one call of \<open>flatten\<close> writes, in order, the splices
  of the children one after the other; a child's grid has side
  \<open>2 ^ (max_depth - level)\<close> of the child.
\<close>

definition side :: "block \<Rightarrow> nat" where
  "side b = 2 ^ nat (max_depth b - level b)"

definition writes :: "block \<Rightarrow> (int \<times> int) list" where
  "writes b =
     (case colour b of
        Some c \<Rightarrow> leaf_targets (side b)
      | None \<Rightarrow>
          concat (map (\<lambda>child.
                         map fst (splice_targets (position b) (bsize b div int (side b))
                                    (position child) (side child)))
                      (children b)))"

section \<open>The perimeter goal (goal.py, \<open>PerimeterGoal.score\<close>)\<close>

text \<open>One iteration of the loop: four reads, one increment for each that matches.\<close>

definition perimeter_step :: "colour \<Rightarrow> grid \<Rightarrow> nat \<Rightarrow> int \<Rightarrow> error + int" where
  "perimeter_step target g i count =
     (let n = int (length g) in
      case get_cell g 0 (int i) of
        Inl err \<Rightarrow> Inl err
      | Inr c1 \<Rightarrow>
     (case get_cell g (int i) 0 of
        Inl err \<Rightarrow> Inl err
      | Inr c2 \<Rightarrow>
     (case get_cell g (int i) (n - 1) of
        Inl err \<Rightarrow> Inl err
      | Inr c3 \<Rightarrow>
     (case get_cell g (n - 1) (int i) of
        Inl err \<Rightarrow> Inl err
      | Inr c4 \<Rightarrow>
          Inr (count + (if c1 = Some target then 1 else 0) + (if c2 = Some target then 1 else 0)
                 + (if c3 = Some target then 1 else 0) + (if c4 = Some target then 1 else 0))))))"

definition perimeter_score :: "colour \<Rightarrow> block \<Rightarrow> error + int" where
  "perimeter_score target board =
     (case flatten board of
        Inl err \<Rightarrow> Inl err
      | Inr g \<Rightarrow> fold_err (perimeter_step target g) [0..<length g] 0)"

section \<open>The blob goal (goal.py, \<open>BlobGoal.score\<close>)\<close>

text \<open>
  \<open>_undiscovered_blob_size\<close>. The list \<open>visited\<close> is updated in place: the function
  returns the count together with \<open>visited\<close> as it is afterwards. \<open>depth\<close> is the
  number of nested calls the interpreter still allows, its recursion limit less the
  frames already on the stack: a call beyond it raises RecursionError.
\<close>

fun undiscovered_blob_size ::
  "nat \<Rightarrow> colour \<Rightarrow> int \<times> int \<Rightarrow> grid \<Rightarrow> int list list \<Rightarrow> error + (int \<times> int list list)" where
  "undiscovered_blob_size 0 target pos board visited = Inl RecursionError"
| "undiscovered_blob_size (Suc depth) target pos board visited =
     (if fst pos < 0 \<or> fst pos \<ge> int (length board) \<or> snd pos < 0 \<or> snd pos \<ge> int (length board)
      then Inr (0, visited)
      else
        case get_cell board (fst pos) (snd pos) of
          Inl err \<Rightarrow> Inl err
        | Inr col \<Rightarrow>
       (case get_cell visited (fst pos) (snd pos) of
          Inl err \<Rightarrow> Inl err
        | Inr mark \<Rightarrow>
            if mark \<noteq> - 1 then Inr (0, visited)
            else if col \<noteq> Some target then
              (case set_cell visited (fst pos) (snd pos) 0 of
                 Inl err \<Rightarrow> Inl err
               | Inr visited0 \<Rightarrow> Inr (0, visited0))
            else
              (case set_cell visited (fst pos) (snd pos) 1 of
                 Inl err \<Rightarrow> Inl err
               | Inr visited1 \<Rightarrow>
              (case undiscovered_blob_size depth target (fst pos + 1, snd pos) board visited1 of
                 Inl err \<Rightarrow> Inl err
               | Inr (c1, visited2) \<Rightarrow>
              (case undiscovered_blob_size depth target (fst pos - 1, snd pos) board visited2 of
                 Inl err \<Rightarrow> Inl err
               | Inr (c2, visited3) \<Rightarrow>
              (case undiscovered_blob_size depth target (fst pos, snd pos + 1) board visited3 of
                 Inl err \<Rightarrow> Inl err
               | Inr (c3, visited4) \<Rightarrow>
              (case undiscovered_blob_size depth target (fst pos, snd pos - 1) board visited4 of
                 Inl err \<Rightarrow> Inl err
               | Inr (c4, visited5) \<Rightarrow> Inr (0 + c1 + c2 + c3 + c4 + 1, visited5))))))))"

declare undiscovered_blob_size.simps [simp del]

text \<open>
  The two loops over \<open>(i, j)\<close> of \<open>BlobGoal.score\<close>, with the pairs left, the list
  \<open>final\<close> and \<open>visited\<close>.
\<close>

fun blob_loop ::
  "nat \<Rightarrow> colour \<Rightarrow> grid \<Rightarrow> (nat \<times> nat) list \<Rightarrow> int list \<Rightarrow> int list list \<Rightarrow>
     error + (int list \<times> int list list)" where
  "blob_loop depth target g [] final visited = Inr (final, visited)"
| "blob_loop depth target g (p # ps) final visited =
     (case undiscovered_blob_size depth target (int (fst p), int (snd p)) g visited of
        Inl err \<Rightarrow> Inl err
      | Inr (c, visited') \<Rightarrow> blob_loop depth target g ps (final @ [c]) visited')"

text \<open>\<open>max(final)\<close>: ValueError on an empty list.\<close>

fun py_max :: "int list \<Rightarrow> error + int" where
  "py_max [] = Inl ValueError"
| "py_max (x # xs) = Inr (fold max xs x)"

text \<open>
  \<open>BlobGoal.score\<close>, with the number of nested calls of \<open>_undiscovered_blob_size\<close>
  the interpreter allows where \<open>score\<close> calls it.
\<close>

definition blob_score :: "nat \<Rightarrow> colour \<Rightarrow> block \<Rightarrow> error + int" where
  "blob_score depth target board =
     (case flatten board of
        Inl err \<Rightarrow> Inl err
      | Inr g \<Rightarrow>
          (case blob_loop depth target g (loop_pairs (length g)) []
                  (replicate (length g) (replicate (length g) (- 1))) of
             Inl err \<Rightarrow> Inl err
           | Inr (final, visited) \<Rightarrow> py_max final))"

section \<open>The computer players (player.py, classes RandomPlayer and SmartPlayer)\<close>

text \<open>
  The boards are mutable objects. The store holds, for every board object that has been
  created, identified by a number, the tree it currently is; \<open>next_id\<close> is the number
  the next new board gets. A node of a board is referred to by the number of the board
  and the node as it is found.
\<close>

record world =
  boards :: "nat \<Rightarrow> block"
  next_id :: nat

type_synonym node_ref = "nat \<times> block"

text \<open>
  Modelled from the spec: \<open>Block.create_copy\<close> is not part of the sources; it yields a
  fully independent deep copy, that is a new board object that is the same tree.
\<close>

definition create_copy :: "nat \<Rightarrow> world \<Rightarrow> nat \<times> world" where
  "create_copy i w =
     (next_id w, w\<lparr>boards := (boards w)(next_id w := boards w i), next_id := Suc (next_id w)\<rparr>)"

text \<open>The list \<open>moves\<close> both players draw the action from.\<close>

definition MOVES :: "action list" where
  "MOVES = [ROTATE_CLOCKWISE, ROTATE_COUNTER_CLOCKWISE, SWAP_HORIZONTAL, SWAP_VERTICAL,
            SMASH, PAINT, COMBINE]"

text \<open>
  \<open>Action.apply\<close> is not part of the sources: it is a parameter, taking the action,
  the node it is applied to (None when the lookup found none), the colour passed to it
  and the store, and returning the success flag and the store afterwards.
\<close>

type_synonym apply_fun = "action \<Rightarrow> node_ref option \<Rightarrow> colour \<Rightarrow> world \<Rightarrow> bool \<times> world"

text \<open>
  One draw, the statements that \<open>RandomPlayer.generate_move\<close> and
  \<open>SmartPlayer.generate_move\<close> share word for word: the copy, the random action,
  coordinate and level, the two lookups, and the action applied to the node of the copy.
  The result is the action, the node of the real board, the number of the copy, the
  success flag, the store and the randomness left.
\<close>

definition sample_draw ::
  "apply_fun \<Rightarrow> colour \<Rightarrow> nat \<Rightarrow> world \<Rightarrow> entropy \<Rightarrow>
     error + (action \<times> node_ref option \<times> nat \<times> bool \<times> world \<times> entropy)" where
  "sample_draw apply_action goal_col board w e =
     (let (new_board, w1) = create_copy board w in
      case choice MOVES e of
        Inl err \<Rightarrow> Inl err
      | Inr (actions, e1) \<Rightarrow>
     (case randint (fst (position (boards w1 new_board))) (bsize (boards w1 board) - 1) e1 of
        Inl err \<Rightarrow> Inl err
      | Inr (x, e2) \<Rightarrow>
     (case randint (snd (position (boards w1 new_board))) (bsize (boards w1 board) - 1) e2 of
        Inl err \<Rightarrow> Inl err
      | Inr (y, e3) \<Rightarrow>
     (case randint (level (boards w1 new_board)) (max_depth (boards w1 new_board)) e3 of
        Inl err \<Rightarrow> Inl err
      | Inr (lv, e4) \<Rightarrow>
          let actual_move = map_option (Pair board) (get_block (boards w1 board) (x, y) lv);
              copy_move = map_option (Pair new_board) (get_block (boards w1 new_board) (x, y) lv);
              (ok, w2) = apply_action actions copy_move goal_col w1
          in Inr (actions, actual_move, new_board, ok, w2, e4)))))"

text \<open>
  The attributes of a computer player: \<open>_proceed\<close> and, for the smart player,
  \<open>_num_test\<close>.
\<close>

record computer_player =
  cp_proceed :: bool
  cp_num_test :: int

text \<open>
  The loop \<open>while self._proceed\<close> of \<open>RandomPlayer.generate_move\<close>: it ends with the
  first draw that succeeds, or with an exception; it need not end.
\<close>

partial_function (option) random_loop ::
  "apply_fun \<Rightarrow> colour \<Rightarrow> nat \<Rightarrow> world \<Rightarrow> entropy \<Rightarrow>
     (error + ((action \<times> node_ref option) \<times> world \<times> entropy)) option" where
  "random_loop apply_action goal_col board w e =
     (case sample_draw apply_action goal_col board w e of
        Inl err \<Rightarrow> Some (Inl err)
      | Inr (actions, actual_move, new_board, ok, w', e') \<Rightarrow>
          if ok then Some (Inr ((actions, actual_move), w', e'))
          else random_loop apply_action goal_col board w' e')"

declare random_loop.simps [code]

definition random_generate_move ::
  "apply_fun \<Rightarrow> colour \<Rightarrow> computer_player \<Rightarrow> nat \<Rightarrow> world \<Rightarrow> entropy \<Rightarrow>
     (error + ((action \<times> node_ref option) option \<times> computer_player \<times> world \<times> entropy)) option" where
  "random_generate_move apply_action goal_col p board w e =
     (if cp_proceed p then
        (case random_loop apply_action goal_col board w e of
           None \<Rightarrow> None
         | Some (Inl err) \<Rightarrow> Some (Inl err)
         | Some (Inr (move, w', e')) \<Rightarrow> Some (Inr (Some move, p\<lparr>cp_proceed := False\<rparr>, w', e')))
      else Some (Inr (None, p, w, e)))"

text \<open>
  The trial loop of \<open>SmartPlayer.generate_move\<close>, with the draws left and the list
  \<open>total\<close> (here \<open>trials\<close>); \<open>score\<close> is the \<open>score\<close> method of the player's goal.
\<close>

type_synonym trial = "action \<times> node_ref option \<times> int"

fun smart_trials ::
  "apply_fun \<Rightarrow> (block \<Rightarrow> error + int) \<Rightarrow> colour \<Rightarrow> nat \<Rightarrow> nat \<Rightarrow> trial list \<Rightarrow> world \<Rightarrow> entropy \<Rightarrow>
     error + (trial list \<times> world \<times> entropy)" where
  "smart_trials apply_action score goal_col board 0 trials w e = Inr (trials, w, e)"
| "smart_trials apply_action score goal_col board (Suc n) trials w e =
     (case sample_draw apply_action goal_col board w e of
        Inl err \<Rightarrow> Inl err
      | Inr (actions, actual_move, new_board, ok, w', e') \<Rightarrow>
          if ok then
            (case score (boards w' new_board) of
               Inl err \<Rightarrow> Inl err
             | Inr s \<Rightarrow>
                 smart_trials apply_action score goal_col board n
                   (trials @ [(actions, actual_move, s)]) w' e')
          else smart_trials apply_action score goal_col board n trials w' e')"

text \<open>
  The loop \<open>while i < len(total)\<close>, over the trials from index \<open>i\<close> on; \<open>penalty\<close>
  is the attribute of the actions.
\<close>

fun best_loop ::
  "(action \<Rightarrow> int) \<Rightarrow> trial list \<Rightarrow> int \<Rightarrow> (action \<times> node_ref option) option \<Rightarrow>
     int \<times> (action \<times> node_ref option) option" where
  "best_loop penalty [] best_score best_move = (best_score, best_move)"
| "best_loop penalty (t # ts) best_score best_move =
     (if snd (snd t) - penalty (fst t) > best_score
      then best_loop penalty ts (snd (snd t) - penalty (fst t)) (Some (fst t, fst (snd t)))
      else best_loop penalty ts best_score best_move)"

text \<open>The statements after the trial loop: the move chosen from \<open>total\<close>.\<close>

definition choose_move ::
  "(action \<Rightarrow> int) \<Rightarrow> (block \<Rightarrow> error + int) \<Rightarrow> trial list \<Rightarrow> nat \<Rightarrow> world \<Rightarrow>
     error + (action \<times> node_ref option) option" where
  "choose_move penalty score trials board w =
     (case score (boards w board) of
        Inl err \<Rightarrow> Inl err
      | Inr baseline \<Rightarrow>
          (let (best_score, best_move) = best_loop penalty trials baseline None in
           case score (boards w board) of
             Inl err \<Rightarrow> Inl err
           | Inr current \<Rightarrow>
               if best_score \<le> current then Inr (Some (PASS, Some (board, boards w board)))
               else Inr best_move))"

definition smart_generate_move ::
  "apply_fun \<Rightarrow> (action \<Rightarrow> int) \<Rightarrow> (block \<Rightarrow> error + int) \<Rightarrow> colour \<Rightarrow> computer_player \<Rightarrow>
     nat \<Rightarrow> world \<Rightarrow> entropy \<Rightarrow>
     error + ((action \<times> node_ref option) option \<times> computer_player \<times> world \<times> entropy)" where
  "smart_generate_move apply_action penalty score goal_col p board w e =
     (if cp_proceed p then
        (case smart_trials apply_action score goal_col board (nat (cp_num_test p)) [] w e of
           Inl err \<Rightarrow> Inl err
         | Inr (trials, w', e') \<Rightarrow>
             (case choose_move penalty score trials board w' of
                Inl err \<Rightarrow> Inl err
              | Inr move \<Rightarrow> Inr (move, p\<lparr>cp_proceed := False\<rparr>, w', e')))
      else Inr (None, p, w, e))"

section \<open>Specification: boards and grids\<close>

text \<open>
  Modelled from the spec: the Block class is not part of the sources. A board is a
  square region, either a uniform leaf with a colour or split into exactly four
  same-size children, one per quadrant, one level deeper and with the same
  \<open>max_depth\<close>; no node is deeper than \<open>max_depth\<close>. The order of the children is
  left open.
\<close>

fun quadtree :: "block \<Rightarrow> bool" where
  "quadtree (Block pos sz col lvl md cs) =
     (lvl \<le> md \<and>
      (case col of
         Some c \<Rightarrow> cs = []
       | None \<Rightarrow>
           length cs = 4
           \<and> (\<forall>child \<in> set cs.
                 level child = lvl + 1 \<and> max_depth child = md \<and> 2 * bsize child = sz
                 \<and> quadtree child)
           \<and> set (map position cs) =
               {(fst pos, snd pos), (fst pos + sz div 2, snd pos),
                (fst pos, snd pos + sz div 2), (fst pos + sz div 2, snd pos + sz div 2)}))"

text \<open>The side of the board is a positive multiple of the number of unit cells along it.\<close>

definition unit_aligned :: "block \<Rightarrow> bool" where
  "unit_aligned b \<longleftrightarrow> 0 < bsize b \<and> int (side b) dvd bsize b"

text \<open>
  The extent of a node, closed on the low edges and open on the high edges.
\<close>

definition contains :: "block \<Rightarrow> int \<times> int \<Rightarrow> bool" where
  "contains b loc \<longleftrightarrow>
     fst (position b) \<le> fst loc \<and> fst loc < fst (position b) + bsize b
     \<and> snd (position b) \<le> snd loc \<and> snd loc < snd (position b) + bsize b"

text \<open>The nodes of a board: the node itself and the nodes of its children.\<close>

fun nodes :: "block \<Rightarrow> block list" where
  "nodes (Block pos sz col lvl md cs) = Block pos sz col lvl md cs # concat (map nodes cs)"

text \<open>A grid of \<open>n\<close> columns of \<open>n\<close> cells each.\<close>

definition square :: "nat \<Rightarrow> 'a list list \<Rightarrow> bool" where
  "square n g \<longleftrightarrow> length g = n \<and> (\<forall>r \<in> set g. length r = n)"

text \<open>The index pairs of a grid of side \<open>n\<close>.\<close>

definition in_grid :: "nat \<Rightarrow> int \<times> int \<Rightarrow> bool" where
  "in_grid n t \<longleftrightarrow> 0 \<le> fst t \<and> fst t < int n \<and> 0 \<le> snd t \<and> snd t < int n"

definition grid_cells :: "nat \<Rightarrow> (int \<times> int) set" where
  "grid_cells n = {t. in_grid n t}"

text \<open>No cell of the grid is left None.\<close>

definition populated :: "nat \<Rightarrow> grid \<Rightarrow> bool" where
  "populated n g \<longleftrightarrow> (\<forall>x<n. \<forall>y<n. g ! x ! y \<noteq> None)"

text \<open>One assignment \<open>final[x][y] = v\<close>, as a pair of the target and the value.\<close>

definition assign :: "(int \<times> int) \<times> 'a \<Rightarrow> 'a list list \<Rightarrow> error + 'a list list" where
  "assign w g = set_cell g (fst (fst w)) (snd (fst w)) (snd w)"

text \<open>The cells of the square of side \<open>m\<close> at an offset, in the order a splice writes them.\<close>

definition quadrant :: "int \<times> int \<Rightarrow> nat \<Rightarrow> (int \<times> int) list" where
  "quadrant off m = map (\<lambda>(i, j). (fst off + int j, snd off + int i)) (loop_pairs m)"

text \<open>The offset at which a child is spliced into the grid of its parent.\<close>

definition offset :: "int \<times> int \<Rightarrow> int \<Rightarrow> int \<times> int \<Rightarrow> int \<times> int" where
  "offset bpos unit_size cpos =
     ((fst cpos - fst bpos) div unit_size, (snd cpos - snd bpos) div unit_size)"

text \<open>The four quadrant offsets of a grid of side \<open>2 * m\<close>.\<close>

definition corners :: "nat \<Rightarrow> (int \<times> int) set" where
  "corners m = {(0, 0), (int m, 0), (0, int m), (int m, int m)}"

text \<open>The assignments the splice of one child makes, with the values read from its grid.\<close>

definition child_assigns ::
  "int \<times> int \<Rightarrow> int \<Rightarrow> int \<times> int \<Rightarrow> grid \<Rightarrow> ((int \<times> int) \<times> cell) list" where
  "child_assigns bpos u cpos temp =
     map (\<lambda>(t, (j, i)). (t, temp ! nat j ! nat i)) (splice_targets bpos u cpos (length temp))"

text \<open>
  Every child's grid sits in the parent's grid at the child's offset: the cell
  \<open>temp[j][i]\<close> of the child is the cell \<open>g[ox + j][oy + i]\<close> of the parent.
\<close>

definition placed :: "block \<Rightarrow> grid \<Rightarrow> bool" where
  "placed b g \<longleftrightarrow>
     (\<forall>child \<in> set (children b).
        \<exists>temp. flatten child = Inr temp
          \<and> (\<forall>i<side child. \<forall>j<side child.
                g ! nat (fst (offset (position b) (bsize b div int (side b)) (position child)) + int j)
                  ! nat (snd (offset (position b) (bsize b div int (side b)) (position child)) + int i)
                = temp ! j ! i))"

section \<open>Specification: the two scores\<close>

text \<open>
  How many of the four boundary scans test the cell at column \<open>x\<close> and row \<open>y\<close>
  of a grid of side \<open>n\<close>.
\<close>

definition perimeter_weight :: "nat \<Rightarrow> nat \<Rightarrow> nat \<Rightarrow> nat" where
  "perimeter_weight n x y =
     (if x = 0 then 1 else 0) + (if y = 0 then 1 else 0)
     + (if y = n - 1 then 1 else 0) + (if x = n - 1 then 1 else 0)"

definition is_corner :: "nat \<Rightarrow> nat \<Rightarrow> nat \<Rightarrow> bool" where
  "is_corner n x y \<longleftrightarrow> (x = 0 \<or> x = n - 1) \<and> (y = 0 \<or> y = n - 1)"

definition on_edge :: "nat \<Rightarrow> nat \<Rightarrow> nat \<Rightarrow> bool" where
  "on_edge n x y \<longleftrightarrow> x = 0 \<or> x = n - 1 \<or> y = 0 \<or> y = n - 1"

text \<open>The four boundary scans, each counting the indices whose cell matches.\<close>

definition scan_count :: "colour \<Rightarrow> grid \<Rightarrow> nat" where
  "scan_count target g =
     (let n = length g in
      length (filter (\<lambda>i. g ! 0 ! i = Some target) [0..<n])
      + length (filter (\<lambda>i. g ! i ! 0 = Some target) [0..<n])
      + length (filter (\<lambda>i. g ! i ! (n - 1) = Some target) [0..<n])
      + length (filter (\<lambda>i. g ! (n - 1) ! i = Some target) [0..<n]))"

text \<open>The cells of the grid that have the target colour.\<close>

definition target_cells :: "colour \<Rightarrow> grid \<Rightarrow> (int \<times> int) set" where
  "target_cells target g =
     {p \<in> grid_cells (length g). g ! nat (fst p) ! nat (snd p) = Some target}"

text \<open>Two cells are adjacent when one is directly above, below, left or right of the other.\<close>

definition adjacent :: "int \<times> int \<Rightarrow> int \<times> int \<Rightarrow> bool" where
  "adjacent p q \<longleftrightarrow> \<bar>fst p - fst q\<bar> + \<bar>snd p - snd q\<bar> = 1"

definition steps_in :: "(int \<times> int) set \<Rightarrow> ((int \<times> int) \<times> (int \<times> int)) set" where
  "steps_in R = {(p, q). p \<in> R \<and> q \<in> R \<and> adjacent p q}"

text \<open>
  A 4-connected region of the target colour: a set of cells of the target colour, any
  two of them linked by a path of adjacent cells inside the set.
\<close>

definition region :: "colour \<Rightarrow> grid \<Rightarrow> (int \<times> int) set \<Rightarrow> bool" where
  "region target g R \<longleftrightarrow>
     R \<subseteq> target_cells target g \<and> (\<forall>p \<in> R. \<forall>q \<in> R. (p, q) \<in> (steps_in R)\<^sup>*)"

text \<open>The cells of a grid of marks whose mark is not \<open>-1\<close>.\<close>

definition marked :: "nat \<Rightarrow> int list list \<Rightarrow> (int \<times> int) set" where
  "marked n visited = {p \<in> grid_cells n. visited ! nat (fst p) ! nat (snd p) \<noteq> - 1}"

text \<open>The cells of the set \<open>T\<close> that are marked after and were not before.\<close>

definition fresh ::
  "nat \<Rightarrow> (int \<times> int) set \<Rightarrow> int list list \<Rightarrow> int list list \<Rightarrow> (int \<times> int) set" where
  "fresh n T visited visited' = (marked n visited' - marked n visited) \<inter> T"

text \<open>
  Every cell of \<open>M\<close> outside \<open>S\<close> has all its neighbours in \<open>T\<close> in \<open>M\<close>.
\<close>

definition closed_except ::
  "(int \<times> int) set \<Rightarrow> (int \<times> int) set \<Rightarrow> (int \<times> int) set \<Rightarrow> bool" where
  "closed_except T M S \<longleftrightarrow> (\<forall>p \<in> M. p \<notin> S \<longrightarrow> (\<forall>q \<in> T. adjacent p q \<longrightarrow> q \<in> M))"

text \<open>The calls of \<open>_undiscovered_blob_size\<close> for a list of positions, one after the other.\<close>

fun visit_all ::
  "nat \<Rightarrow> colour \<Rightarrow> grid \<Rightarrow> (int \<times> int) list \<Rightarrow> int \<Rightarrow> int list list \<Rightarrow>
     error + (int \<times> int list list)" where
  "visit_all depth target g [] c visited = Inr (c, visited)"
| "visit_all depth target g (p # ps) c visited =
     (case undiscovered_blob_size depth target p g visited of
        Inl err \<Rightarrow> Inl err
      | Inr (c1, visited1) \<Rightarrow> visit_all depth target g ps (c + c1) visited1)"

text \<open>
  What a run of calls started at the positions \<open>P\<close> has done when it has taken the
  marks from \<open>visited\<close> to \<open>visited'\<close> and counted \<open>c\<close>.
\<close>

definition explored ::
  "nat \<Rightarrow> (int \<times> int) set \<Rightarrow> (int \<times> int) set \<Rightarrow> int list list \<Rightarrow> int \<Rightarrow> int list list \<Rightarrow> bool" where
  "explored n T P visited c visited' \<longleftrightarrow>
     square n visited' \<and> marked n visited \<subseteq> marked n visited'
     \<and> c = int (card (fresh n T visited visited'))
     \<and> (\<forall>p \<in> P. in_grid n p \<longrightarrow> p \<in> marked n visited')
     \<and> (\<forall>a \<in> fresh n T visited visited'.
           \<exists>p \<in> P. p \<in> fresh n T visited visited'
             \<and> (p, a) \<in> (steps_in (fresh n T visited visited'))\<^sup>*)
     \<and> (\<forall>S. closed_except T (marked n visited \<inter> T) S
             \<longrightarrow> closed_except T (marked n visited' \<inter> T) S)"

text \<open>
  The \<open>k\<close>-th cell the flood fill reaches, started at the upper left corner of a grid
  of side \<open>n\<close> all of whose cells have the target colour: along row 0 from column 0
  to column \<open>n - 1\<close>, back along row 1, and so on, each cell reached from inside the
  call for the cell before it.
\<close>

definition snake :: "nat \<Rightarrow> nat \<Rightarrow> int \<times> int" where
  "snake n k =
     (int (if even (k div n) then k mod n else n - 1 - k mod n), int (k div n))"

section \<open>Specification: the choice of the smart player and the frame of the actions\<close>

text \<open>The net value of a trial: the resulting score minus the penalty of its action.\<close>

definition net :: "(action \<Rightarrow> int) \<Rightarrow> trial \<Rightarrow> int" where
  "net penalty t = snd (snd t) - penalty (fst t)"

text \<open>The move of a trial: its action and the node of the real board.\<close>

definition move_of :: "trial \<Rightarrow> action \<times> node_ref option" where
  "move_of t = (fst t, fst (snd t))"

text \<open>
  Trial \<open>k\<close> is the first of the trials with the largest net: none has a larger net,
  and every earlier one has a strictly smaller net.
\<close>

definition first_best :: "(action \<Rightarrow> int) \<Rightarrow> trial list \<Rightarrow> nat \<Rightarrow> bool" where
  "first_best penalty trials k \<longleftrightarrow>
     k < length trials
     \<and> (\<forall>j<length trials. net penalty (trials ! j) \<le> net penalty (trials ! k))
     \<and> (\<forall>j<k. net penalty (trials ! j) < net penalty (trials ! k))"

text \<open>
  The assumption on the actions: applying an action changes at most the board object
  its target node belongs to, and creates no board object.
\<close>

definition frame :: "apply_fun \<Rightarrow> bool" where
  "frame apply_action \<longleftrightarrow>
     (\<forall>a target c w.
        next_id (snd (apply_action a target c w)) = next_id w
        \<and> (\<forall>j. (\<forall>nd. target \<noteq> Some (j, nd)) \<longrightarrow>
                 boards (snd (apply_action a target c w)) j = boards w j))"

section \<open>Example boards and runs\<close>

text \<open>A board of side 2 with \<open>max_depth = 2\<close>, split once into four unit leaves.\<close>

definition board_small :: block where
  "board_small =
     Block (0, 0) 2 None 0 2
       [Block (1, 0) 1 (Some REAL_RED) 1 2 [], Block (0, 0) 1 (Some REAL_RED) 1 2 [],
        Block (0, 1) 1 (Some REAL_RED) 1 2 [], Block (1, 1) 1 (Some REAL_RED) 1 2 []]"

text \<open>A board of side 6 with \<open>max_depth = 2\<close>, split once into four leaves of side 3.\<close>

definition board_six :: block where
  "board_six =
     Block (0, 0) 6 None 0 2
       [Block (3, 0) 3 (Some REAL_RED) 1 2 [], Block (0, 0) 3 (Some REAL_RED) 1 2 [],
        Block (0, 3) 3 (Some REAL_RED) 1 2 [], Block (3, 3) 3 (Some REAL_RED) 1 2 []]"

text \<open>
  A board of side 4 with \<open>max_depth = 2\<close>: the upper left quadrant is split into unit
  cells, and only its lower right cell, the cell at column 1 and row 1, is olive.
\<close>

definition board_4x4 :: block where
  "board_4x4 =
     Block (0, 0) 4 None 0 2
       [Block (2, 0) 2 (Some REAL_RED) 1 2 [],
        Block (0, 0) 2 None 1 2
          [Block (1, 0) 1 (Some REAL_RED) 2 2 [], Block (0, 0) 1 (Some REAL_RED) 2 2 [],
           Block (0, 1) 1 (Some REAL_RED) 2 2 [], Block (1, 1) 1 (Some OLD_OLIVE) 2 2 []],
        Block (0, 2) 2 (Some REAL_RED) 1 2 [],
        Block (2, 2) 2 (Some REAL_RED) 1 2 []]"

definition grid_4x4 :: grid where
  "grid_4x4 =
     [[Some REAL_RED, Some REAL_RED, Some REAL_RED, Some REAL_RED],
      [Some REAL_RED, Some OLD_OLIVE, Some REAL_RED, Some REAL_RED],
      [Some REAL_RED, Some REAL_RED, Some REAL_RED, Some REAL_RED],
      [Some REAL_RED, Some REAL_RED, Some REAL_RED, Some REAL_RED]]"

text \<open>A board of side 2 with \<open>max_depth = 1\<close>, all four unit cells red.\<close>

definition board_2x2 :: block where
  "board_2x2 =
     Block (0, 0) 2 None 0 1
       [Block (1, 0) 1 (Some REAL_RED) 1 1 [], Block (0, 0) 1 (Some REAL_RED) 1 1 [],
        Block (0, 1) 1 (Some REAL_RED) 1 1 [], Block (1, 1) 1 (Some REAL_RED) 1 1 []]"

text \<open>A single unit cell: a leaf at \<open>level = max_depth\<close>.\<close>

definition board_unit :: block where
  "board_unit = Block (0, 0) 1 (Some REAL_RED) 0 0 []"

text \<open>
  A board of side 4 with two red regions that do not touch: the upper left quadrant
  (4 cells) and three unit cells of the lower right quadrant; everything else is olive.
\<close>

definition board_blobs :: block where
  "board_blobs =
     Block (0, 0) 4 None 0 2
       [Block (2, 0) 2 (Some OLD_OLIVE) 1 2 [],
        Block (0, 0) 2 (Some REAL_RED) 1 2 [],
        Block (0, 2) 2 (Some OLD_OLIVE) 1 2 [],
        Block (2, 2) 2 None 1 2
          [Block (3, 2) 1 (Some REAL_RED) 2 2 [], Block (2, 2) 1 (Some OLD_OLIVE) 2 2 [],
           Block (2, 3) 1 (Some REAL_RED) 2 2 [], Block (3, 3) 1 (Some REAL_RED) 2 2 []]]"

definition grid_blobs :: grid where
  "grid_blobs =
     [[Some REAL_RED, Some REAL_RED, Some OLD_OLIVE, Some OLD_OLIVE],
      [Some REAL_RED, Some REAL_RED, Some OLD_OLIVE, Some OLD_OLIVE],
      [Some OLD_OLIVE, Some OLD_OLIVE, Some OLD_OLIVE, Some REAL_RED],
      [Some OLD_OLIVE, Some OLD_OLIVE, Some REAL_RED, Some REAL_RED]]"

text \<open>
  A board of the size of the game (\<open>BOARD_SIZE = 800\<close>) with \<open>max_depth = 5\<close>, a single
  red leaf: its grid has 32 columns of 32 red cells.
\<close>

definition board_uniform :: block where
  "board_uniform = Block (0, 0) 800 (Some REAL_RED) 0 5 []"

text \<open>
  An action implementation to run the players on: PAINT succeeds on a leaf that does
  not have the colour yet and gives it the colour, every other attempt fails and
  changes nothing.
\<close>

fun repaint :: "block \<Rightarrow> block \<Rightarrow> colour \<Rightarrow> block" where
  "repaint (Block pos sz col lvl md cs) target c =
     (if Block pos sz col lvl md cs = target then Block pos sz (Some c) lvl md cs
      else Block pos sz col lvl md (map (\<lambda>child. repaint child target c) cs))"

definition paint_only :: apply_fun where
  "paint_only a target c w =
     (case target of
        None \<Rightarrow> (False, w)
      | Some (i, nd) \<Rightarrow>
          if a = PAINT \<and> colour nd \<noteq> None \<and> colour nd \<noteq> Some c
          then (True, w\<lparr>boards := (boards w)(i := repaint (boards w i) nd c)\<rparr>)
          else (False, w))"

definition paint_penalty :: "action \<Rightarrow> int" where
  "paint_penalty a = (if a = PAINT then 1 else 0)"

text \<open>A store with one board, and a periodic source of raw draws.\<close>

definition world_4x4 :: world where
  "world_4x4 = \<lparr>boards = (\<lambda>i. board_4x4), next_id = 1\<rparr>"

definition draws_three :: entropy where
  "draws_three = (\<lambda>i. [5, 0, 0, 2,  5, 2, 0, 1,  4, 1, 1, 2] ! (i mod 12))"

definition smart_three :: computer_player where
  "smart_three = \<lparr>cp_proceed = True, cp_num_test = 3\<rparr>"

definition random_ready :: computer_player where
  "random_ready = \<lparr>cp_proceed = True, cp_num_test = 0\<rparr>"

text \<open>The trial loop and the two players run on the board of side 4.\<close>

definition trial_run :: "error + (trial list \<times> world \<times> entropy)" where
  "trial_run =
     smart_trials paint_only (perimeter_score OLD_OLIVE) OLD_OLIVE 0
       (nat (cp_num_test smart_three)) [] world_4x4 draws_three"

definition smart_run ::
  "error + ((action \<times> node_ref option) option \<times> computer_player \<times> world \<times> entropy)" where
  "smart_run =
     smart_generate_move paint_only paint_penalty (perimeter_score OLD_OLIVE) OLD_OLIVE
       smart_three 0 world_4x4 draws_three"

definition random_run ::
  "(error + ((action \<times> node_ref option) option \<times> computer_player \<times> world \<times> entropy)) option" where
  "random_run = random_generate_move paint_only OLD_OLIVE random_ready 0 world_4x4 draws_three"

text \<open>
  The lower right quadrant of the board of side 4, a leaf at position \<open>(2, 2)\<close>, as a
  board of its own.
\<close>

definition world_quadrant :: world where
  "world_quadrant = \<lparr>boards = (\<lambda>i. Block (2, 2) 2 (Some REAL_RED) 1 2 []), next_id = 1\<rparr>"

section \<open>Properties\<close>

lemma colour_names_keys: "map fst colour_names = COLOUR_LIST"
  by (simp add: colour_names_def COLOUR_LIST_def)

text \<open>
  C9: \<open>colour_name\<close> raises UnknownColourError exactly for the colours outside the
  palette, raises nothing else, and for each palette colour returns that colour's name.
\<close>

theorem colour_name_palette:
  "(colour_name c = Inl UnknownColourError \<longleftrightarrow> c \<notin> set COLOUR_LIST)
   \<and> (\<forall>e. colour_name c = Inl e \<longrightarrow> e = UnknownColourError \<and> c \<notin> set COLOUR_LIST)
   \<and> (\<forall>s. colour_name c = Inr s \<longrightarrow> (c, s) \<in> set colour_names)
   \<and> colour_name PACIFIC_POINT = Inr ''Pacific Point''
   \<and> colour_name REAL_RED = Inr ''Real Red''
   \<and> colour_name OLD_OLIVE = Inr ''Old Olive''
   \<and> colour_name DAFFODIL_DELIGHT = Inr ''Daffodil Delight''"
proof -
  have keys: "map_of colour_names c = None \<longleftrightarrow> c \<notin> set COLOUR_LIST"
    unfolding map_of_eq_None_iff colour_names_keys [symmetric] by simp
  have a: "colour_name c = Inl UnknownColourError \<longleftrightarrow> c \<notin> set COLOUR_LIST"
    using keys by (auto simp: colour_name_def split: option.splits)
  have b: "\<forall>e. colour_name c = Inl e \<longrightarrow> e = UnknownColourError \<and> c \<notin> set COLOUR_LIST"
    using keys by (auto simp: colour_name_def split: option.splits)
  have c: "\<forall>s. colour_name c = Inr s \<longrightarrow> (c, s) \<in> set colour_names"
    by (auto simp: colour_name_def split: option.splits dest: map_of_SomeD)
  have d: "colour_name PACIFIC_POINT = Inr ''Pacific Point''"
    "colour_name REAL_RED = Inr ''Real Red''"
    "colour_name OLD_OLIVE = Inr ''Old Olive''"
    "colour_name DAFFODIL_DELIGHT = Inr ''Daffodil Delight''"
    by (simp_all add: colour_name_def colour_names_def PACIFIC_POINT_def REAL_RED_def
        OLD_OLIVE_def DAFFODIL_DELIGHT_def)
  from a b c d show ?thesis by blast
qed

theorem colour_name_palette_witness:
  "colour_name (255, 255, 255) = Inl UnknownColourError
   \<and> (255, 255, 255) \<notin> set COLOUR_LIST
   \<and> colour_name (199, 44, 58) = Inr ''Real Red''
   \<and> ((199, 44, 58), ''Real Red'') \<in> set colour_names"
proof -
  have w: "(255, 255, 255) \<notin> set COLOUR_LIST"
    by (simp add: COLOUR_LIST_def PACIFIC_POINT_def REAL_RED_def OLD_OLIVE_def
        DAFFODIL_DELIGHT_def)
  have r: "colour_name (199, 44, 58) = Inr ''Real Red''"
    using colour_name_palette [of "(199, 44, 58)"] by (simp add: REAL_RED_def)
  show ?thesis
    using w r colour_name_palette [of "(255, 255, 255)"] colour_name_palette [of "(199, 44, 58)"]
    by blast
qed

text \<open>
  C10: after every call of \<open>HumanPlayer.generate_move\<close> the pending action is None,
  also when the call returns None; so the next call returns None whatever the mouse
  position and the board are: a pending action never survives a failed query.
\<close>

theorem human_generate_move_clears:
  "hp_desired_action (snd (human_generate_move p mouse_pos board)) = None
   \<and> fst (human_generate_move (snd (human_generate_move p mouse_pos board)) mouse_pos' board')
       = None"
proof -
  have clears: "hp_desired_action (snd (human_generate_move q m b)) = None" for q m b
    by (simp add: human_generate_move_def correct_level_def split: option.splits prod.splits)
  have none: "hp_desired_action q = None \<Longrightarrow> fst (human_generate_move q m b) = None" for q m b
    by (simp add: human_generate_move_def split: option.splits prod.splits)
  show ?thesis
    using clears none by blast
qed

lemma choice_member:
  "seq \<noteq> [] \<Longrightarrow> \<exists>c e'. choice seq e = Inr (c, e') \<and> c \<in> set seq"
  by (simp add: choice_def)

lemma randint_range:
  "a \<le> b \<Longrightarrow> \<exists>v e'. randint a b e = Inr (v, e') \<and> a \<le> v \<and> v \<le> b"
proof -
  assume ab: "a \<le> b"
  have "int (fst (next_raw e)) mod (b - a + 1) < b - a + 1"
    using ab by (intro pos_mod_bound) simp
  moreover have "0 \<le> int (fst (next_raw e)) mod (b - a + 1)"
    using ab by (intro pos_mod_sign) simp
  ultimately show ?thesis using ab by (simp add: randint_def)
qed

lemma generate_goals_loop_distinct:
  "k \<le> length colours \<Longrightarrow> distinct colours \<Longrightarrow> distinct (map goal_colour final)
   \<Longrightarrow> set (map goal_colour final) \<inter> set colours = {}
   \<Longrightarrow> \<exists>gs. generate_goals_loop k colours final e = Inr gs
         \<and> length gs = length final + k
         \<and> distinct (map goal_colour gs)
         \<and> set (map goal_colour gs) \<subseteq> set (map goal_colour final) \<union> set colours"
proof (induction k arbitrary: colours final e)
  case 0
  then show ?case by simp
next
  case (Suc k)
  from Suc.prems(1) have ne: "colours \<noteq> []" by auto
  from choice_member [OF ne] obtain c e1 where
    ch: "choice colours e = Inr (c, e1)" and cin: "c \<in> set colours" by blast
  from randint_range [of 1 2 e1] obtain v e2 where
    ri: "randint 1 2 e1 = Inr (v, e2)" by auto
  let ?cs = "remove1 c colours"
  have len: "k \<le> length ?cs" using Suc.prems(1) cin by (simp add: length_remove1)
  have dc: "distinct ?cs" using Suc.prems(2) by simp
  have cnot: "c \<notin> set ?cs" using Suc.prems(2) by simp
  have cfin: "c \<notin> set (map goal_colour final)" using Suc.prems(4) cin by auto
  have sub: "set ?cs \<subseteq> set colours" by (rule set_remove1_subset)
  have step: "\<exists>gs. generate_goals_loop k ?cs (final @ [g]) e2 = Inr gs
         \<and> length gs = length (final @ [g]) + k
         \<and> distinct (map goal_colour gs)
         \<and> set (map goal_colour gs) \<subseteq> set (map goal_colour (final @ [g])) \<union> set ?cs"
    if gc: "goal_colour g = c" for g
  proof (rule Suc.IH [OF len dc])
    show "distinct (map goal_colour (final @ [g]))"
      using Suc.prems(3) cfin gc by simp
    show "set (map goal_colour (final @ [g])) \<inter> set ?cs = {}"
      using Suc.prems(4) sub cnot gc by auto
  qed
  show ?case
  proof (cases "v = 1")
    case True
    from step [of "BlobGoal c"] obtain gs where
      "generate_goals_loop k ?cs (final @ [BlobGoal c]) e2 = Inr gs"
      "length gs = length (final @ [BlobGoal c]) + k"
      "distinct (map goal_colour gs)"
      "set (map goal_colour gs) \<subseteq> set (map goal_colour (final @ [BlobGoal c])) \<union> set ?cs"
      by auto
    then show ?thesis using ch ri True cin sub by auto
  next
    case False
    from step [of "PerimeterGoal c"] obtain gs where
      "generate_goals_loop k ?cs (final @ [PerimeterGoal c]) e2 = Inr gs"
      "length gs = length (final @ [PerimeterGoal c]) + k"
      "distinct (map goal_colour gs)"
      "set (map goal_colour gs) \<subseteq> set (map goal_colour (final @ [PerimeterGoal c])) \<union> set ?cs"
      by auto
    then show ?thesis using ch ri False cin sub by auto
  qed
qed

lemma COLOUR_LIST_distinct: "distinct COLOUR_LIST"
  by (simp add: COLOUR_LIST_def PACIFIC_POINT_def REAL_RED_def OLD_OLIVE_def DAFFODIL_DELIGHT_def)

text \<open>
  C8: for \<open>0 \<le> count \<le> len(COLOUR_LIST)\<close>, whatever the random draws are,
  \<open>generate_goals(count)\<close> returns exactly \<open>count\<close> goals, their colours pairwise
  distinct and all of the palette, each goal a PerimeterGoal or a BlobGoal.
\<close>

theorem generate_goals_distinct:
  assumes "0 \<le> num_goals" and "num_goals \<le> int (length COLOUR_LIST)"
  shows "\<exists>gs. generate_goals num_goals e = Inr gs
           \<and> int (length gs) = num_goals
           \<and> distinct (map goal_colour gs)
           \<and> set (map goal_colour gs) \<subseteq> set COLOUR_LIST
           \<and> (\<forall>g \<in> set gs. g = PerimeterGoal (goal_colour g) \<or> g = BlobGoal (goal_colour g))"
proof -
  have k: "nat num_goals \<le> length COLOUR_LIST" using assms by simp
  from generate_goals_loop_distinct [OF k COLOUR_LIST_distinct, of "[]" e]
  obtain gs where gs: "generate_goals_loop (nat num_goals) COLOUR_LIST [] e = Inr gs"
    "length gs = nat num_goals" "distinct (map goal_colour gs)"
    "set (map goal_colour gs) \<subseteq> set COLOUR_LIST"
    by auto
  have kinds: "\<forall>g \<in> set gs. g = PerimeterGoal (goal_colour g) \<or> g = BlobGoal (goal_colour g)"
  proof
    fix g assume "g \<in> set gs"
    show "g = PerimeterGoal (goal_colour g) \<or> g = BlobGoal (goal_colour g)" by (cases g) simp_all
  qed
  from gs kinds assms show ?thesis by (simp add: generate_goals_def)
qed

theorem generate_goals_distinct_witness:
  "(0::int) \<le> 2 \<and> (2::int) \<le> int (length COLOUR_LIST)
   \<and> generate_goals 2 (\<lambda>i. 0) = Inr [BlobGoal PACIFIC_POINT, BlobGoal REAL_RED]
   \<and> distinct (map goal_colour [BlobGoal PACIFIC_POINT, BlobGoal REAL_RED])
   \<and> set (map goal_colour [BlobGoal PACIFIC_POINT, BlobGoal REAL_RED]) \<subseteq> set COLOUR_LIST"
proof -
  have h: "(0::int) \<le> 2" "(2::int) \<le> int (length COLOUR_LIST)"
    by (simp_all add: COLOUR_LIST_def)
  have run: "generate_goals 2 (\<lambda>i. 0) = Inr [BlobGoal PACIFIC_POINT, BlobGoal REAL_RED]"
    by code_simp
  show ?thesis
    using h run generate_goals_distinct [OF h, of "\<lambda>i. 0"] by simp
qed

subsection \<open>Loops that may raise\<close>

lemma fold_err_append:
  "fold_err f (xs @ ys) s =
     (case fold_err f xs s of Inl err \<Rightarrow> Inl err | Inr s' \<Rightarrow> fold_err f ys s')"
  by (induction xs arbitrary: s) (auto split: sum.splits)

lemma fold_err_map: "fold_err f (map h xs) s = fold_err (\<lambda>x. f (h x)) xs s"
  by (induction xs arbitrary: s) (auto split: sum.splits)

lemma fold_err_same:
  "(\<And>x s. x \<in> set xs \<Longrightarrow> f x s = g x s) \<Longrightarrow> fold_err f xs s = fold_err g xs s"
  by (induction xs arbitrary: s) (auto split: sum.splits)

lemma fold_err_concat:
  "(\<And>x s. x \<in> set xs \<Longrightarrow> F x s = fold_err W (h x) s)
   \<Longrightarrow> fold_err F xs s = fold_err W (concat (map h xs)) s"
  by (induction xs arbitrary: s) (auto simp: fold_err_append split: sum.splits)

lemma fold_err_invariant:
  "fold_err f xs s = Inr s' \<Longrightarrow> P s
   \<Longrightarrow> (\<And>x t t'. x \<in> set xs \<Longrightarrow> P t \<Longrightarrow> f x t = Inr t' \<Longrightarrow> P t') \<Longrightarrow> P s'"
proof (induction xs arbitrary: s)
  case Nil
  then show ?case by simp
next
  case (Cons x xs)
  from Cons.prems(1) obtain t where t: "f x s = Inr t" and rest: "fold_err f xs t = Inr s'"
    by (auto split: sum.splits)
  have "P t" using Cons.prems(2,3) t by auto
  with rest show ?case using Cons.IH Cons.prems(3) by auto
qed

lemma fold_err_sum:
  "(\<And>x c. x \<in> set xs \<Longrightarrow> f x c = Inr (c + h x))
   \<Longrightarrow> fold_err f xs c = Inr (c + sum_list (map h xs))"
  for c :: int
  by (induction xs arbitrary: c) (auto simp: add.assoc)

lemma square_nth: "square n g \<Longrightarrow> x < n \<Longrightarrow> length (g ! x) = n"
  by (simp add: square_def)

lemma square_replicate: "square n (replicate n (replicate n v))"
  by (simp add: square_def)

lemma py_index_in_range: "0 \<le> i \<Longrightarrow> i < int n \<Longrightarrow> py_index n i = Some (nat i)"
  by (simp add: py_index_def)

lemma py_index_Some: "py_index n i = Some k \<Longrightarrow> k < n"
  by (auto simp: py_index_def split: if_splits)

lemma set_cell_square:
  assumes "set_cell g x y v = Inr g'" and "square n g"
  shows "square n g'"
proof -
  from assms(1) obtain xi yi where xi: "py_index (length g) x = Some xi"
    and yi: "py_index (length (g ! xi)) y = Some yi"
    and g': "g' = g[xi := (g ! xi)[yi := v]]"
    by (auto simp: set_cell_def split: option.splits)
  have "xi < length g" using xi by (rule py_index_Some)
  then show ?thesis using assms(2) unfolding g' square_def
    by (auto simp: set_conv_nth nth_list_update)
qed

lemma set_cell_in_range:
  assumes "square n g" and "0 \<le> x" "x < int n" "0 \<le> y" "y < int n"
  shows "set_cell g x y v = Inr (g[nat x := (g ! nat x)[nat y := v]])"
proof -
  have lx: "length g = n" using assms(1) by (simp add: square_def)
  have "nat x < n" using assms by simp
  then have ly: "length (g ! nat x) = n" using assms(1) by (simp add: square_nth)
  show ?thesis
    using assms lx ly by (simp add: set_cell_def py_index_in_range)
qed

lemma get_cell_in_range:
  assumes "square n g" and "0 \<le> x" "x < int n" "0 \<le> y" "y < int n"
  shows "get_cell g x y = Inr (g ! nat x ! nat y)"
proof -
  have lx: "length g = n" using assms(1) by (simp add: square_def)
  have "nat x < n" using assms by simp
  then have ly: "length (g ! nat x) = n" using assms(1) by (simp add: square_nth)
  show ?thesis
    using assms lx ly by (simp add: get_cell_def py_index_in_range)
qed

lemma assigns_result:
  assumes "square n g" and "\<And>w. w \<in> set ws \<Longrightarrow> in_grid n (fst w)"
  shows "\<exists>g'. fold_err assign ws g = Inr g' \<and> square n g'
           \<and> (\<forall>x<n. \<forall>y<n. g' ! x ! y =
                 (case map_of (rev ws) (int x, int y) of Some v \<Rightarrow> v | None \<Rightarrow> g ! x ! y))"
  using assms
proof (induction ws arbitrary: g)
  case Nil
  then show ?case by simp
next
  case (Cons w ws)
  obtain wx wy v where w: "w = ((wx, wy), v)" by (metis prod.collapse)
  have rng: "0 \<le> wx" "wx < int n" "0 \<le> wy" "wy < int n"
    using Cons.prems(2) [of w] by (simp_all add: w in_grid_def)
  let ?g1 = "g[nat wx := (g ! nat wx)[nat wy := v]]"
  have a: "assign w g = Inr ?g1"
    using set_cell_in_range [OF Cons.prems(1) rng] by (simp add: assign_def w)
  have sq1: "square n ?g1"
    using set_cell_square [OF _ Cons.prems(1)] a by (simp add: assign_def w)
  from Cons.IH [OF sq1] Cons.prems(2) obtain g' where
    run: "fold_err assign ws ?g1 = Inr g'" and sq': "square n g'"
    and cells: "\<forall>x<n. \<forall>y<n. g' ! x ! y =
                 (case map_of (rev ws) (int x, int y) of Some v \<Rightarrow> v | None \<Rightarrow> ?g1 ! x ! y)"
    by auto
  have lg: "length g = n" using Cons.prems(1) by (simp add: square_def)
  have "g' ! x ! y =
          (case map_of (rev (w # ws)) (int x, int y) of Some v \<Rightarrow> v | None \<Rightarrow> g ! x ! y)"
    if xy: "x < n" "y < n" for x y
  proof -
    have lr: "length (g ! nat wx) = n" using Cons.prems(1) rng by (simp add: square_nth)
    have g1: "?g1 ! x ! y = (if (int x, int y) = (wx, wy) then v else g ! x ! y)"
      using xy rng lg lr by (auto simp: nth_list_update)
    show ?thesis
      using cells xy g1 by (simp add: w map_add_def split: option.splits)
  qed
  with run sq' a show ?case by auto
qed

declare flatten.simps [simp del]

lemma splice_square:
  assumes "splice_child bpos u cpos temp final = Inr final'" and "square n final"
  shows "square n final'"
  using assms(1) [unfolded splice_child_def] assms(2)
proof (rule fold_err_invariant)
  fix w t t'
  assume "square n t"
    and "(case w of (a, b) \<Rightarrow> (case a of (x, y) \<Rightarrow> \<lambda>(j, i) final.
            if u = 0 then Inl ZeroDivisionError
            else case get_cell temp j i of Inl err \<Rightarrow> Inl err
                 | Inr v \<Rightarrow> set_cell final x y v) b) t = Inr t'"
  then show "square n t'"
    by (auto split: prod.splits if_splits sum.splits intro: set_cell_square)
qed

lemma flatten_square:
  assumes "flatten b = Inr g"
  shows "square (side b) g"
proof (cases b)
  case (Block pos sz col lvl md cs)
  let ?n = "(2::nat) ^ nat (md - lvl)"
  let ?final = "replicate ?n (replicate ?n (None :: cell))"
  have n: "side b = ?n" by (simp add: side_def Block)
  have sq0: "square ?n ?final" by (rule square_replicate)
  show ?thesis
  proof (cases col)
    case None
    from assms have run:
      "fold_err (\<lambda>(cpos, r) final. case r of Inl err \<Rightarrow> Inl err
                   | Inr temp \<Rightarrow> splice_child pos (sz div int ?n) cpos temp final)
         (map (\<lambda>child. (position child, flatten child)) cs) ?final = Inr g"
      by (simp add: Block None flatten.simps Let_def split: if_splits)
    have "square ?n g"
      using run sq0
    proof (rule fold_err_invariant)
      fix w t t'
      assume "square ?n t"
        and "(case w of (cpos, r) \<Rightarrow> \<lambda>final. case r of Inl err \<Rightarrow> Inl err
               | Inr temp \<Rightarrow> splice_child pos (sz div int ?n) cpos temp final) t = Inr t'"
      then show "square ?n t'"
        by (auto split: prod.splits sum.splits intro: splice_square)
    qed
    then show ?thesis by (simp add: n)
  next
    case (Some c)
    from assms have run:
      "fold_err (\<lambda>(x, y) final. set_cell final x y (Some c)) (leaf_targets ?n) ?final = Inr g"
      by (simp add: Block Some flatten.simps Let_def split: if_splits)
    have "square ?n g"
      using run sq0
    proof (rule fold_err_invariant)
      fix w t t'
      assume "square ?n t" and "(case w of (x, y) \<Rightarrow> \<lambda>final. set_cell final x y (Some c)) t = Inr t'"
      then show "square ?n t'"
        by (auto split: prod.splits intro: set_cell_square)
    qed
    then show ?thesis by (simp add: n)
  qed
qed

lemma side_pos: "0 < side b"
  by (simp add: side_def)

lemma perimeter_step_square:
  assumes "square n g" and "i < n"
  shows "perimeter_step target g i count =
           Inr (count + (int (if g ! 0 ! i = Some target then 1 else 0)
                  + int (if g ! i ! 0 = Some target then 1 else 0)
                  + int (if g ! i ! (n - 1) = Some target then 1 else 0)
                  + int (if g ! (n - 1) ! i = Some target then 1 else 0)))"
proof -
  have n: "length g = n" using assms(1) by (simp add: square_def)
  have pos: "0 < n" using assms(2) by simp
  have r1: "get_cell g 0 (int i) = Inr (g ! 0 ! i)"
    using get_cell_in_range [OF assms(1), of 0 "int i"] assms(2) pos by simp
  have r2: "get_cell g (int i) 0 = Inr (g ! i ! 0)"
    using get_cell_in_range [OF assms(1), of "int i" 0] assms(2) pos by simp
  have r3: "get_cell g (int i) (int n - 1) = Inr (g ! i ! (n - 1))"
    using get_cell_in_range [OF assms(1), of "int i" "int n - 1"] assms(2) pos
    by (simp add: nat_diff_distrib')
  have r4: "get_cell g (int n - 1) (int i) = Inr (g ! (n - 1) ! i)"
    using get_cell_in_range [OF assms(1), of "int n - 1" "int i"] assms(2) pos
    by (simp add: nat_diff_distrib')
  show ?thesis
    by (simp add: perimeter_step_def n r1 r2 r3 r4)
qed

lemma length_filter_sum: "length (filter P [0..<n]) = (\<Sum>i<n. if P i then 1 else 0)"
  by (induction n) simp_all

lemma sum_list_upt: "sum_list (map h [0..<n]) = (\<Sum>i<n. h i)" for h :: "nat \<Rightarrow> int"
  by (induction n) simp_all

lemma perimeter_score_scan:
  assumes "flatten board = Inr g"
  shows "perimeter_score target board = Inr (int (scan_count target g))"
proof -
  let ?n = "length g"
  have sq: "square ?n g" using flatten_square [OF assms] by (simp add: square_def)
  let ?h = "\<lambda>i. int (if g ! 0 ! i = Some target then 1 else 0)
                  + int (if g ! i ! 0 = Some target then 1 else 0)
                  + int (if g ! i ! (?n - 1) = Some target then 1 else 0)
                  + int (if g ! (?n - 1) ! i = Some target then 1 else 0)"
  have "fold_err (perimeter_step target g) [0..<?n] 0 = Inr (0 + sum_list (map ?h [0..<?n]))"
    by (rule fold_err_sum) (simp add: perimeter_step_square [OF sq])
  also have "sum_list (map ?h [0..<?n]) = int (scan_count target g)"
    by (simp add: sum_list_upt scan_count_def Let_def length_filter_sum sum.distrib)
  finally show ?thesis using assms by (simp add: perimeter_score_def)
qed

lemma scan_count_weights:
  "scan_count target g =
     (\<Sum>x<length g. \<Sum>y<length g.
        if g ! x ! y = Some target then perimeter_weight (length g) x y else 0)"
proof (cases "length g = 0")
  case True
  then show ?thesis by (simp add: scan_count_def)
next
  case False
  let ?n = "length g"
  let ?P = "\<lambda>x y. g ! x ! y = Some target"
  have z: "0 < ?n" "?n - 1 < ?n" using False by simp_all
  have split: "(if ?P x y then perimeter_weight ?n x y else 0) =
        (if x = 0 then (if ?P x y then 1 else 0) else 0)
      + (if y = 0 then (if ?P x y then 1 else 0) else 0)
      + (if y = ?n - 1 then (if ?P x y then 1 else 0) else 0)
      + (if x = ?n - 1 then (if ?P x y then 1 else 0) else 0)" for x y
    by (simp add: perimeter_weight_def)
  have a: "(\<Sum>x<?n. \<Sum>y<?n. if x = 0 then (if ?P x y then 1 else 0) else 0)
            = (\<Sum>y<?n. if ?P 0 y then (1::nat) else 0)"
  proof -
    have "(\<Sum>x<?n. \<Sum>y<?n. if x = 0 then (if ?P x y then 1 else 0) else 0)
          = (\<Sum>x<?n. if x = 0 then (\<Sum>y<?n. if ?P x y then (1::nat) else 0) else 0)"
      by (intro sum.cong) auto
    also have "\<dots> = (\<Sum>y<?n. if ?P 0 y then (1::nat) else 0)"
      using z by (simp add: sum.delta)
    finally show ?thesis .
  qed
  have d: "(\<Sum>x<?n. \<Sum>y<?n. if x = ?n - 1 then (if ?P x y then 1 else 0) else 0)
            = (\<Sum>y<?n. if ?P (?n - 1) y then (1::nat) else 0)"
  proof -
    have "(\<Sum>x<?n. \<Sum>y<?n. if x = ?n - 1 then (if ?P x y then 1 else 0) else 0)
          = (\<Sum>x<?n. if x = ?n - 1 then (\<Sum>y<?n. if ?P x y then (1::nat) else 0) else 0)"
      by (intro sum.cong) auto
    also have "\<dots> = (\<Sum>y<?n. if ?P (?n - 1) y then (1::nat) else 0)"
      using z by (simp add: sum.delta)
    finally show ?thesis .
  qed
  have b: "(\<Sum>x<?n. \<Sum>y<?n. if y = 0 then (if ?P x y then 1 else 0) else 0)
            = (\<Sum>x<?n. if ?P x 0 then (1::nat) else 0)"
    using z by (simp add: sum.delta)
  have c: "(\<Sum>x<?n. \<Sum>y<?n. if y = ?n - 1 then (if ?P x y then 1 else 0) else 0)
            = (\<Sum>x<?n. if ?P x (?n - 1) then (1::nat) else 0)"
    using z by (simp add: sum.delta)
  show ?thesis
    unfolding split sum.distrib a b c d
    by (simp add: scan_count_def Let_def length_filter_sum)
qed

lemma perimeter_weight_cases:
  assumes "2 \<le> n" "x < n" "y < n"
  shows "perimeter_weight n x y = (if is_corner n x y then 2 else if on_edge n x y then 1 else 0)"
  using assms by (auto simp: perimeter_weight_def is_corner_def on_edge_def)

lemma loop_pairs_set: "set (loop_pairs n) = {..<n} \<times> {..<n}"
  by (auto simp: loop_pairs_def)

lemma loop_pairs_distinct: "distinct (loop_pairs n)"
  by (simp add: loop_pairs_def distinct_product)

lemma leaf_targets_set: "set (leaf_targets n) = grid_cells n"
proof -
  have "t \<in> set (leaf_targets n) \<longleftrightarrow> in_grid n t" for t
  proof
    assume "t \<in> set (leaf_targets n)"
    then show "in_grid n t"
      by (auto simp: leaf_targets_def loop_pairs_set in_grid_def)
  next
    assume g: "in_grid n t"
    then have "(nat (snd t), nat (fst t)) \<in> {..<n} \<times> {..<n}"
      by (auto simp: in_grid_def)
    moreover have "t = (\<lambda>(i, j). (int j, int i)) (nat (snd t), nat (fst t))"
      using g by (simp add: in_grid_def)
    ultimately show "t \<in> set (leaf_targets n)"
      unfolding leaf_targets_def loop_pairs_set [symmetric] set_map by (rule image_eqI [rotated])
  qed
  then show ?thesis by (auto simp: grid_cells_def)
qed

lemma leaf_targets_distinct: "distinct (leaf_targets n)"
  unfolding leaf_targets_def
  by (rule distinct_map [THEN iffD2]) (auto simp: loop_pairs_distinct inj_on_def)

lemma in_grid_int: "x < n \<Longrightarrow> y < n \<Longrightarrow> in_grid n (int x, int y)"
  by (simp add: in_grid_def)

lemma assign_const: "(\<lambda>(x, y) final. set_cell final x y v) = (\<lambda>t. assign (t, v))"
  by (auto simp: fun_eq_iff assign_def)

lemma map_of_const: "map_of (map (\<lambda>t. (t, v)) ts) k = (if k \<in> set ts then Some v else None)"
  by (induction ts) auto

lemma flatten_leaf:
  assumes "lvl \<le> md"
  shows "flatten (Block pos sz (Some c) lvl md cs) =
           Inr (replicate (2 ^ nat (md - lvl)) (replicate (2 ^ nat (md - lvl)) (Some c)))"
proof -
  let ?n = "(2::nat) ^ nat (md - lvl)"
  let ?final = "replicate ?n (replicate ?n (None :: cell))"
  let ?ws = "map (\<lambda>t. (t, Some c)) (leaf_targets ?n)"
  have eq: "flatten (Block pos sz (Some c) lvl md cs) = fold_err assign ?ws ?final"
    using assms by (simp add: flatten.simps Let_def fold_err_map assign_const)
  have "\<And>w. w \<in> set ?ws \<Longrightarrow> in_grid ?n (fst w)"
    using leaf_targets_set [of ?n] by (auto simp: grid_cells_def)
  from assigns_result [OF square_replicate this] obtain g where
    run: "fold_err assign ?ws ?final = Inr g" and sq: "square ?n g"
    and cells: "\<forall>x<?n. \<forall>y<?n. g ! x ! y =
       (case map_of (rev ?ws) (int x, int y) of Some v \<Rightarrow> v | None \<Rightarrow> ?final ! x ! y)"
    by blast
  have mp: "map_of (rev ?ws) t = (if t \<in> set (leaf_targets ?n) then Some (Some c) else None)" for t
    using map_of_const [of "Some c" "rev (leaf_targets ?n)" t] by (simp add: rev_map)
  have "g = replicate ?n (replicate ?n (Some c))"
  proof (rule nth_equalityI)
    show "length g = length (replicate ?n (replicate ?n (Some c)))"
      using sq by (simp add: square_def)
  next
    fix x assume "x < length g"
    then have x: "x < ?n" using sq by (simp add: square_def)
    show "g ! x = replicate ?n (replicate ?n (Some c)) ! x"
    proof (rule nth_equalityI)
      show "length (g ! x) = length (replicate ?n (replicate ?n (Some c)) ! x)"
        using x square_nth [OF sq x] by simp
    next
      fix y assume "y < length (g ! x)"
      then have y: "y < ?n" using square_nth [OF sq x] by simp
      have "(int x, int y) \<in> set (leaf_targets ?n)"
        using in_grid_int [OF x y] by (simp add: leaf_targets_set grid_cells_def)
      then show "g ! x ! y = replicate ?n (replicate ?n (Some c)) ! x ! y"
        using cells x y by (simp add: mp)
    qed
  qed
  with eq run show ?thesis by simp
qed

lemma splice_targets_quadrant:
  "map fst (splice_targets bpos u cpos m) = quadrant (offset bpos u cpos) m"
  by (simp add: splice_targets_def quadrant_def offset_def case_prod_beta)

lemma quadrant_set:
  "set (quadrant off m) =
     {t. fst off \<le> fst t \<and> fst t < fst off + int m \<and> snd off \<le> snd t \<and> snd t < snd off + int m}"
proof -
  have "t \<in> set (quadrant off m) \<longleftrightarrow>
          fst off \<le> fst t \<and> fst t < fst off + int m \<and> snd off \<le> snd t \<and> snd t < snd off + int m"
    for t
  proof
    assume "t \<in> set (quadrant off m)"
    then show "fst off \<le> fst t \<and> fst t < fst off + int m \<and> snd off \<le> snd t \<and> snd t < snd off + int m"
      by (auto simp: quadrant_def loop_pairs_set)
  next
    assume g: "fst off \<le> fst t \<and> fst t < fst off + int m \<and> snd off \<le> snd t \<and> snd t < snd off + int m"
    let ?p = "(nat (snd t - snd off), nat (fst t - fst off))"
    have "?p \<in> {..<m} \<times> {..<m}" using g by auto
    moreover have "t = (\<lambda>(i, j). (fst off + int j, snd off + int i)) ?p"
      using g by (simp add: prod_eq_iff)
    ultimately show "t \<in> set (quadrant off m)"
      unfolding quadrant_def loop_pairs_set [symmetric] set_map by (rule image_eqI [rotated])
  qed
  then show ?thesis by auto
qed

lemma quadrant_distinct: "distinct (quadrant off m)"
  unfolding quadrant_def
  by (rule distinct_map [THEN iffD2]) (auto simp: loop_pairs_distinct inj_on_def)

lemma distinct_concat_map:
  assumes "distinct os" and "\<And>a. a \<in> set os \<Longrightarrow> distinct (f a)"
    and "\<And>a b. a \<in> set os \<Longrightarrow> b \<in> set os \<Longrightarrow> a \<noteq> b \<Longrightarrow> set (f a) \<inter> set (f b) = {}"
  shows "distinct (concat (map f os))"
  using assms
proof (induction os)
  case Nil
  then show ?case by simp
next
  case (Cons a os)
  have "distinct (concat (map f os))"
    using Cons.prems by (intro Cons.IH) auto
  moreover have "set (f a) \<inter> set (f b) = {}" if "b \<in> set os" for b
    using Cons.prems(3) [of a b] Cons.prems(1) that by auto
  ultimately show ?case using Cons.prems(2) [of a] by auto
qed

lemma quadrants_disjoint:
  assumes "a \<in> corners m" "b \<in> corners m" "a \<noteq> b"
  shows "set (quadrant a m) \<inter> set (quadrant b m) = {}"
  using assms by (auto simp: corners_def quadrant_set)

lemma quadrants_cover: "(\<Union>a \<in> corners m. set (quadrant a m)) = grid_cells (2 * m)"
proof -
  have "t \<in> (\<Union>a \<in> corners m. set (quadrant a m)) \<longleftrightarrow> in_grid (2 * m) t" for t
    by (auto simp: corners_def quadrant_set in_grid_def)
  then show ?thesis by (auto simp: grid_cells_def)
qed

lemma corners_card: "0 < m \<Longrightarrow> card (corners m) = 4"
  by (simp add: corners_def)

lemma writes_of_offsets:
  assumes "length offs = 4" and "set offs = corners m" and "0 < m"
  shows "distinct (concat (map (\<lambda>a. quadrant a m) offs))"
    and "set (concat (map (\<lambda>a. quadrant a m) offs)) = grid_cells (2 * m)"
proof -
  have "card (set offs) = length offs"
    using assms by (simp add: corners_card)
  then have d: "distinct offs" by (rule card_distinct)
  show "distinct (concat (map (\<lambda>a. quadrant a m) offs))"
    using d
  proof (rule distinct_concat_map)
    fix a show "distinct (quadrant a m)" by (rule quadrant_distinct)
  next
    fix a b assume "a \<in> set offs" "b \<in> set offs" "a \<noteq> b"
    then show "set (quadrant a m) \<inter> set (quadrant b m) = {}"
      using assms(2) by (intro quadrants_disjoint) auto
  qed
  show "set (concat (map (\<lambda>a. quadrant a m) offs)) = grid_cells (2 * m)"
    using quadrants_cover [of m] assms(2) by simp
qed

lemma internal_geometry:
  assumes q: "quadtree (Block pos sz None lvl md cs)"
    and a: "unit_aligned (Block pos sz None lvl md cs)"
    and m: "m = 2 ^ nat (md - (lvl + 1))"
    and u: "u = sz div int (2 ^ nat (md - lvl))"
  shows "lvl + 1 \<le> md" and "(2::nat) ^ nat (md - lvl) = 2 * m" and "0 < u"
    and "sz = u * int (2 * m)" and "0 < m"
    and "\<And>c. c \<in> set cs \<Longrightarrow> side c = m \<and> quadtree c \<and> unit_aligned c"
    and "set (map (\<lambda>c. offset pos u (position c)) cs) = corners m"
    and "length cs = 4"
proof -
  from q have len: "length cs = 4"
    and ch: "\<And>c. c \<in> set cs \<Longrightarrow>
               level c = lvl + 1 \<and> max_depth c = md \<and> 2 * bsize c = sz \<and> quadtree c"
    and ps: "set (map position cs) =
               {(fst pos, snd pos), (fst pos + sz div 2, snd pos),
                (fst pos, snd pos + sz div 2), (fst pos + sz div 2, snd pos + sz div 2)}"
    by simp_all
  show "length cs = 4" by (rule len)
  from len obtain c0 where c0: "c0 \<in> set cs" by (cases cs) auto
  have "level c0 \<le> max_depth c0" using ch [OF c0] by (cases c0) simp
  then show lv: "lvl + 1 \<le> md" using ch [OF c0] by simp
  then have "nat (md - lvl) = Suc (nat (md - (lvl + 1)))" by simp
  then show n: "(2::nat) ^ nat (md - lvl) = 2 * m" by (simp add: m)
  show mpos: "0 < m" by (simp add: m)
  from a have szpos: "0 < sz" and dv: "int (2 * m) dvd sz"
    by (simp_all add: unit_aligned_def side_def n)
  from dv show sz: "sz = u * int (2 * m)" by (simp add: u n)
  show upos: "0 < u"
  proof (rule ccontr)
    assume "\<not> 0 < u"
    then have "u * int (2 * m) \<le> 0" using mpos by (simp add: mult_le_0_iff)
    with sz szpos show False by simp
  qed
  have h: "sz div 2 = u * int m" using sz by simp
  show "side c = m \<and> quadtree c \<and> unit_aligned c" if c: "c \<in> set cs" for c
  proof -
    have s: "side c = m" using ch [OF c] by (simp add: side_def m)
    have b: "bsize c = u * int m" using ch [OF c] sz by simp
    have "0 < bsize c" using b upos mpos by simp
    then show ?thesis using ch [OF c] s b by (simp add: unit_aligned_def)
  qed
  have hu: "u * int m div u = int m" using upos by simp
  have "set (map (\<lambda>c. offset pos u (position c)) cs) = offset pos u ` set (map position cs)"
    by (simp add: image_image)
  also have "\<dots> = corners m"
    unfolding ps h by (simp add: offset_def corners_def hu)
  finally show "set (map (\<lambda>c. offset pos u (position c)) cs) = corners m" .
qed

lemma splice_assigns:
  assumes "square m temp" and "u \<noteq> 0"
  shows "splice_child bpos u cpos temp final = fold_err assign (child_assigns bpos u cpos temp) final"
proof -
  have len: "length temp = m" using assms(1) by (simp add: square_def)
  have "fold_err assign (child_assigns bpos u cpos temp) final =
          fold_err (\<lambda>w. assign ((\<lambda>(t, (j, i)). (t, temp ! nat j ! nat i)) w))
            (splice_targets bpos u cpos (length temp)) final"
    by (simp add: child_assigns_def fold_err_map)
  also have "\<dots> = splice_child bpos u cpos temp final"
    unfolding splice_child_def
  proof (rule fold_err_same)
    fix w s
    assume "w \<in> set (splice_targets bpos u cpos (length temp))"
    then obtain x y i j where w: "w = ((x, y), (int j, int i))" and ij: "i < m" "j < m"
      by (auto simp: splice_targets_def loop_pairs_set len)
    have "get_cell temp (int j) (int i) = Inr (temp ! j ! i)"
      using get_cell_in_range [OF assms(1), of "int j" "int i"] ij by simp
    then show "assign ((\<lambda>(t, (j, i)). (t, temp ! nat j ! nat i)) w) s =
          (case w of (a, b) \<Rightarrow> (case a of (x, y) \<Rightarrow> \<lambda>(j, i) final.
            if u = 0 then Inl ZeroDivisionError
            else case get_cell temp j i of Inl err \<Rightarrow> Inl err
                 | Inr v \<Rightarrow> set_cell final x y v) b) s"
      using assms(2) by (simp add: w assign_def)
  qed
  finally show ?thesis by simp
qed

lemma child_assigns_targets:
  "map fst (child_assigns bpos u cpos temp) = quadrant (offset bpos u cpos) (length temp)"
  unfolding splice_targets_quadrant [symmetric]
  by (simp add: child_assigns_def case_prod_beta)

lemma child_assigns_values:
  assumes "square m temp" and "populated m temp" and "w \<in> set (child_assigns bpos u cpos temp)"
  shows "snd w \<noteq> None"
proof -
  have len: "length temp = m" using assms(1) by (simp add: square_def)
  from assms(3) obtain t i j where "w = (t, temp ! j ! i)" and "i < m" "j < m"
    by (auto simp: child_assigns_def splice_targets_def loop_pairs_set len)
  then show ?thesis using assms(2) by (simp add: populated_def)
qed

lemma writes_internal:
  assumes q: "quadtree (Block pos sz None lvl md cs)"
    and a: "unit_aligned (Block pos sz None lvl md cs)"
  shows "distinct (writes (Block pos sz None lvl md cs))"
    and "set (writes (Block pos sz None lvl md cs)) = grid_cells (side (Block pos sz None lvl md cs))"
proof -
  define m :: nat where "m = 2 ^ nat (md - (lvl + 1))"
  define u where "u = sz div int (2 ^ nat (md - lvl))"
  note geo = internal_geometry [OF q a m_def u_def]
  have "writes (Block pos sz None lvl md cs) =
          concat (map (\<lambda>c. quadrant (offset pos u (position c)) (side c)) cs)"
    by (simp add: writes_def side_def u_def splice_targets_quadrant)
  also have "\<dots> = concat (map (\<lambda>c. quadrant (offset pos u (position c)) m) cs)"
    using geo(6) by (intro arg_cong [where f = concat] map_cong) auto
  also have "\<dots> = concat (map (\<lambda>a. quadrant a m) (map (\<lambda>c. offset pos u (position c)) cs))"
    by (simp add: o_def)
  finally have w: "writes (Block pos sz None lvl md cs) =
      concat (map (\<lambda>a. quadrant a m) (map (\<lambda>c. offset pos u (position c)) cs))" .
  have l: "length (map (\<lambda>c. offset pos u (position c)) cs) = 4" using geo(8) by simp
  have s: "side (Block pos sz None lvl md cs) = 2 * m" using geo(2) by (simp add: side_def)
  show "distinct (writes (Block pos sz None lvl md cs))"
    unfolding w by (rule writes_of_offsets(1) [OF l geo(7) geo(5)])
  show "set (writes (Block pos sz None lvl md cs)) = grid_cells (side (Block pos sz None lvl md cs))"
    unfolding w s by (rule writes_of_offsets(2) [OF l geo(7) geo(5)])
qed

lemma flatten_internal:
  assumes q: "quadtree (Block pos sz None lvl md cs)"
    and a: "unit_aligned (Block pos sz None lvl md cs)"
    and IH: "\<And>c. c \<in> set cs \<Longrightarrow>
               \<exists>t. flatten c = Inr t \<and> square (side c) t \<and> populated (side c) t"
  shows "\<exists>g. flatten (Block pos sz None lvl md cs) = Inr g
           \<and> square (side (Block pos sz None lvl md cs)) g
           \<and> populated (side (Block pos sz None lvl md cs)) g
           \<and> placed (Block pos sz None lvl md cs) g"
proof -
  let ?b = "Block pos sz None lvl md cs"
  define m :: nat where "m = 2 ^ nat (md - (lvl + 1))"
  define u where "u = sz div int (2 ^ nat (md - lvl))"
  note geo = internal_geometry [OF q a m_def u_def]
  define n :: nat where "n = 2 * m"
  have n: "(2::nat) ^ nat (md - lvl) = n" "side ?b = n" using geo(2) by (simp_all add: n_def side_def)
  have u': "u = sz div int n" by (simp add: u_def n)
  define tmp where "tmp c = (case flatten c of Inr t \<Rightarrow> t | Inl e \<Rightarrow> [])" for c
  have tmp: "flatten c = Inr (tmp c) \<and> square m (tmp c) \<and> populated m (tmp c)"
    if "c \<in> set cs" for c
    using IH [OF that] geo(6) [OF that] by (auto simp: tmp_def)
  define ws where "ws = concat (map (\<lambda>c. child_assigns pos u (position c) (tmp c)) cs)"
  let ?final = "replicate n (replicate n (None :: cell))"
  have run: "flatten ?b = fold_err assign ws ?final"
  proof -
    have "flatten ?b =
        fold_err (\<lambda>c final. case flatten c of Inl err \<Rightarrow> Inl err
                   | Inr temp \<Rightarrow> splice_child pos u (position c) temp final) cs ?final"
      unfolding u_def n(1) [symmetric]
      using geo(1) by (simp add: flatten.simps Let_def fold_err_map)
    also have "\<dots> = fold_err assign ws ?final"
      unfolding ws_def
    proof (rule fold_err_concat)
      fix c s assume c: "c \<in> set cs"
      show "(case flatten c of Inl err \<Rightarrow> Inl err
              | Inr temp \<Rightarrow> splice_child pos u (position c) temp s) =
            fold_err assign (child_assigns pos u (position c) (tmp c)) s"
        using tmp [OF c] geo(3) splice_assigns [of m "tmp c" u pos "position c" s] by simp
    qed
    finally show ?thesis .
  qed
  have keys: "map fst ws = writes ?b"
  proof -
    have "map fst ws = concat (map (\<lambda>c. quadrant (offset pos u (position c)) (length (tmp c))) cs)"
      by (simp add: ws_def map_concat o_def child_assigns_targets)
    also have "\<dots> = concat (map (\<lambda>c. quadrant (offset pos u (position c)) (side c)) cs)"
    proof (intro arg_cong [where f = concat] map_cong refl)
      fix c assume "c \<in> set cs"
      then show "quadrant (offset pos u (position c)) (length (tmp c)) =
                 quadrant (offset pos u (position c)) (side c)"
        using tmp [of c] geo(6) [of c] by (simp add: square_def)
    qed
    also have "\<dots> = writes ?b"
      by (simp add: writes_def side_def u_def splice_targets_quadrant)
    finally show ?thesis .
  qed
  have dist: "distinct (map fst ws)" and cover: "set (map fst ws) = grid_cells n"
    using writes_internal [OF q a] by (simp_all add: keys n)
  have "\<And>w. w \<in> set ws \<Longrightarrow> in_grid n (fst w)"
    using cover by (auto simp: grid_cells_def)
  from assigns_result [OF square_replicate this] obtain g where
    g: "fold_err assign ws ?final = Inr g" and sq: "square n g"
    and cells: "\<forall>x<n. \<forall>y<n. g ! x ! y =
       (case map_of (rev ws) (int x, int y) of Some v \<Rightarrow> v | None \<Rightarrow> ?final ! x ! y)"
    by blast
  have lookup: "map_of (rev ws) k = Some v \<longleftrightarrow> (k, v) \<in> set ws" for k v
    using dist map_of_eq_Some_iff [of "rev ws" k v] by (simp add: rev_map [symmetric])
  have vals: "snd w \<noteq> None" if "w \<in> set ws" for w
  proof -
    from that obtain c where c: "c \<in> set cs"
      and w: "w \<in> set (child_assigns pos u (position c) (tmp c))"
      by (auto simp: ws_def)
    show ?thesis using child_assigns_values [OF _ _ w] tmp [OF c] by blast
  qed
  have pop: "populated n g"
    unfolding populated_def
  proof (intro allI impI)
    fix x y assume xy: "x < n" "y < n"
    have "(int x, int y) \<in> set (map fst ws)"
      unfolding cover using in_grid_int [OF xy] by (simp add: grid_cells_def)
    then obtain v where v: "((int x, int y), v) \<in> set ws" by auto
    then have "map_of (rev ws) (int x, int y) = Some v" by (simp add: lookup)
    then have "g ! x ! y = v" using cells xy by simp
    then show "g ! x ! y \<noteq> None" using vals [OF v] by simp
  qed
  have pl: "placed ?b g"
    unfolding placed_def
  proof
    fix c assume "c \<in> set (children ?b)"
    then have c: "c \<in> set cs" by simp
    have sd: "side c = m" using geo(6) [OF c] by simp
    have len: "length (tmp c) = m" using tmp [OF c] by (simp add: square_def)
    have "g ! nat (fst (offset pos u (position c)) + int j)
            ! nat (snd (offset pos u (position c)) + int i) = tmp c ! j ! i"
      if ij: "i < m" "j < m" for i j
    proof -
      let ?k = "(fst (offset pos u (position c)) + int j, snd (offset pos u (position c)) + int i)"
      have "(i, j) \<in> set (loop_pairs m)" using ij by (simp add: loop_pairs_set)
      then have "(\<lambda>(t, (j, i)). (t, tmp c ! nat j ! nat i))
                   ((\<lambda>(i, j). (((fst (position c) - fst pos) div u + int j,
                                 (snd (position c) - snd pos) div u + int i), (int j, int i))) (i, j))
                 \<in> set (child_assigns pos u (position c) (tmp c))"
        unfolding child_assigns_def splice_targets_def len set_map by (intro imageI)
      then have "(?k, tmp c ! j ! i) \<in> set (child_assigns pos u (position c) (tmp c))"
        by (simp add: offset_def)
      then have mem: "(?k, tmp c ! j ! i) \<in> set ws" using c by (auto simp: ws_def)
      then have "?k \<in> grid_cells n" using cover by (metis fst_conv image_eqI set_map)
      then have rng: "0 \<le> fst ?k" "fst ?k < int n" "0 \<le> snd ?k" "snd ?k < int n"
        by (simp_all add: grid_cells_def in_grid_def)
      have "map_of (rev ws) (int (nat (fst ?k)), int (nat (snd ?k))) = Some (tmp c ! j ! i)"
        using mem rng by (simp add: lookup)
      moreover have "nat (fst ?k) < n" "nat (snd ?k) < n" using rng by simp_all
      ultimately have "g ! nat (fst ?k) ! nat (snd ?k) = tmp c ! j ! i"
        using cells by simp
      then show ?thesis by simp
    qed
    then show "\<exists>temp. flatten c = Inr temp
          \<and> (\<forall>i<side c. \<forall>j<side c.
                g ! nat (fst (offset (position ?b) (bsize ?b div int (side ?b)) (position c)) + int j)
                  ! nat (snd (offset (position ?b) (bsize ?b div int (side ?b)) (position c)) + int i)
                = temp ! j ! i)"
      using tmp [OF c] sd by (auto simp: u_def side_def)
  qed
  show ?thesis using run g sq pop pl by (simp add: n)
qed

lemma flatten_quadtree:
  "quadtree b \<Longrightarrow> unit_aligned b \<Longrightarrow>
     \<exists>g. flatten b = Inr g \<and> square (side b) g \<and> populated (side b) g \<and> placed b g"
proof (induction b)
  case (Block pos sz col lvl md cs)
  show ?case
  proof (cases col)
    case None
    have "\<exists>t. flatten c = Inr t \<and> square (side c) t \<and> populated (side c) t"
      if c: "c \<in> set cs" for c
    proof -
      have "side c = 2 ^ nat (md - (lvl + 1)) \<and> quadtree c \<and> unit_aligned c"
        using internal_geometry(6) [OF Block.prems [unfolded None] refl refl c] .
      then show ?thesis using Block.IH [OF c] by blast
    qed
    from flatten_internal [OF Block.prems [unfolded None] this] show ?thesis
      by (simp add: None)
  next
    case (Some c)
    have lv: "lvl \<le> md" and cs: "cs = []" using Block.prems(1) by (simp_all add: Some)
    have "populated (2 ^ nat (md - lvl)) (replicate (2 ^ nat (md - lvl)) (replicate (2 ^ nat (md - lvl)) (Some c)))"
      by (simp add: populated_def)
    then show ?thesis
      using flatten_leaf [OF lv, of pos sz c cs]
      by (simp add: Some side_def square_replicate placed_def cs)
  qed
qed

lemma writes_leaf:
  assumes "colour b = Some c"
  shows "distinct (writes b)" and "set (writes b) = grid_cells (side b)"
  using assms by (simp_all add: writes_def leaf_targets_distinct leaf_targets_set)

text \<open>
  C1 (as amended): on a leaf of colour \<open>c\<close> with \<open>level \<le> max_depth\<close>, \<open>flatten\<close>
  returns the grid of side \<open>2 ^ (max_depth - level)\<close> with every cell \<open>c\<close>. On a
  quadtree board whose size is a positive multiple of \<open>2 ^ (max_depth - level)\<close> it
  returns a square grid of that side with every cell populated, every child's grid in
  the quadrant at the child's offset, and the cells it writes are pairwise distinct and
  are all the cells of the grid: each cell is written exactly once.
\<close>

theorem flatten_populates_grid:
  "(level b \<le> max_depth b \<and> colour b = Some c \<longrightarrow>
      flatten b = Inr (replicate (side b) (replicate (side b) (Some c))))
   \<and> (quadtree b \<and> unit_aligned b \<longrightarrow>
        (\<exists>g. flatten b = Inr g \<and> square (side b) g \<and> populated (side b) g \<and> placed b g)
        \<and> distinct (writes b) \<and> set (writes b) = grid_cells (side b))"
proof (intro conjI impI)
  assume "level b \<le> max_depth b \<and> colour b = Some c"
  then show "flatten b = Inr (replicate (side b) (replicate (side b) (Some c)))"
    using flatten_leaf [of "level b" "max_depth b" "position b" "bsize b" c "children b"]
    by (cases b) (simp add: side_def)
next
  assume "quadtree b \<and> unit_aligned b"
  then show "\<exists>g. flatten b = Inr g \<and> square (side b) g \<and> populated (side b) g \<and> placed b g"
    using flatten_quadtree by blast
next
  assume h: "quadtree b \<and> unit_aligned b"
  show "distinct (writes b)"
  proof (cases b)
    case (Block pos sz col lvl md cs)
    then show ?thesis
      using h writes_internal(1) [of pos sz lvl md cs] writes_leaf(1) [of b] by (cases col) auto
  qed
next
  assume h: "quadtree b \<and> unit_aligned b"
  show "set (writes b) = grid_cells (side b)"
  proof (cases b)
    case (Block pos sz col lvl md cs)
    then show ?thesis
      using h writes_internal(2) [of pos sz lvl md cs] writes_leaf(2) [of b] by (cases col) auto
  qed
qed

lemma board_4x4_flatten: "flatten board_4x4 = Inr grid_4x4"
  unfolding board_4x4_def grid_4x4_def by code_simp

lemma board_4x4_quadtree: "quadtree board_4x4"
  unfolding board_4x4_def by code_simp

lemma board_4x4_aligned: "unit_aligned board_4x4"
  unfolding board_4x4_def by code_simp

theorem flatten_populates_grid_witness:
  "quadtree board_4x4 \<and> unit_aligned board_4x4
   \<and> flatten board_4x4 = Inr grid_4x4
   \<and> square 4 grid_4x4 \<and> populated 4 grid_4x4 \<and> placed board_4x4 grid_4x4
   \<and> distinct (writes board_4x4) \<and> set (writes board_4x4) = grid_cells 4
   \<and> level board_unit \<le> max_depth board_unit \<and> colour board_unit = Some REAL_RED
   \<and> flatten board_unit = Inr [[Some REAL_RED]]"
proof -
  have s: "side board_4x4 = 4" by (simp add: side_def board_4x4_def)
  have u: "level board_unit \<le> max_depth board_unit \<and> colour board_unit = Some REAL_RED"
    "side board_unit = 1"
    by (simp_all add: board_unit_def side_def)
  show ?thesis
    using flatten_populates_grid [of board_4x4 REAL_RED] flatten_populates_grid [of board_unit REAL_RED]
      board_4x4_quadtree board_4x4_aligned board_4x4_flatten s u
    by auto
qed

theorem flatten_small_board_counterexample:
  "quadtree board_small \<and> level board_small \<le> max_depth board_small
   \<and> flatten board_small = Inl ZeroDivisionError
   \<and> quadtree board_six \<and> level board_six \<le> max_depth board_six
   \<and> flatten board_six = Inl IndexError"
  unfolding board_small_def board_six_def by code_simp

text \<open>
  C3 (as amended): whenever \<open>flatten\<close> returns a grid of side \<open>n\<close>, the perimeter
  score is the count of the four boundary scans, which is the sum over the cells of the
  target colour of the number of scans that test the cell. For \<open>n \<ge> 2\<close> that number
  is 2 for a corner cell, 1 for any other edge cell and 0 for an interior cell; on a
  grid of side 1 the single cell is tested by all four scans. A grid with the target
  colour on interior cells only scores 0.
\<close>

theorem perimeter_score_boundary:
  assumes "flatten board = Inr g"
  shows "length g = side board
   \<and> perimeter_score target board = Inr (int (scan_count target g))
   \<and> scan_count target g =
       (\<Sum>x<length g. \<Sum>y<length g.
          if g ! x ! y = Some target then perimeter_weight (length g) x y else 0)
   \<and> (2 \<le> length g \<longrightarrow>
        (\<forall>x<length g. \<forall>y<length g.
           perimeter_weight (length g) x y =
             (if is_corner (length g) x y then 2 else if on_edge (length g) x y then 1 else 0)))
   \<and> perimeter_weight 1 0 0 = 4
   \<and> ((\<forall>x<length g. \<forall>y<length g. g ! x ! y = Some target \<longrightarrow> \<not> on_edge (length g) x y)
        \<longrightarrow> perimeter_score target board = Inr 0)"
proof -
  have l: "length g = side board"
    using flatten_square [OF assms] by (simp add: square_def)
  have sc: "perimeter_score target board = Inr (int (scan_count target g))"
    by (rule perimeter_score_scan [OF assms])
  have w: "2 \<le> length g \<longrightarrow>
        (\<forall>x<length g. \<forall>y<length g.
           perimeter_weight (length g) x y =
             (if is_corner (length g) x y then 2 else if on_edge (length g) x y then 1 else 0))"
    using perimeter_weight_cases by blast
  have one: "perimeter_weight 1 0 0 = 4" by (simp add: perimeter_weight_def)
  have interior: "perimeter_score target board = Inr 0"
    if "\<forall>x<length g. \<forall>y<length g. g ! x ! y = Some target \<longrightarrow> \<not> on_edge (length g) x y"
  proof -
    have "(if g ! x ! y = Some target then perimeter_weight (length g) x y else 0) = 0"
      if "x < length g" "y < length g" for x y
      using that \<open>\<forall>x<length g. \<forall>y<length g. g ! x ! y = Some target \<longrightarrow> \<not> on_edge (length g) x y\<close>
      by (auto simp: perimeter_weight_def on_edge_def)
    then have "scan_count target g = 0"
      unfolding scan_count_weights by simp
    then show ?thesis using sc by simp
  qed
  from l sc scan_count_weights [of target g] w one interior show ?thesis by blast
qed

theorem perimeter_score_boundary_witness:
  "flatten board_2x2 = Inr [[Some REAL_RED, Some REAL_RED], [Some REAL_RED, Some REAL_RED]]
   \<and> perimeter_score REAL_RED board_2x2 = Inr 8
   \<and> scan_count REAL_RED [[Some REAL_RED, Some REAL_RED], [Some REAL_RED, Some REAL_RED]] = 8
   \<and> flatten board_4x4 = Inr grid_4x4
   \<and> perimeter_score OLD_OLIVE board_4x4 = Inr 0
   \<and> scan_count OLD_OLIVE grid_4x4 = 0
   \<and> perimeter_score REAL_RED board_4x4 = Inr 16"
proof -
  have f2: "flatten board_2x2 = Inr [[Some REAL_RED, Some REAL_RED], [Some REAL_RED, Some REAL_RED]]"
    unfolding board_2x2_def by code_simp
  have p2: "perimeter_score REAL_RED board_2x2 = Inr 8"
    unfolding board_2x2_def by code_simp
  have p4: "perimeter_score OLD_OLIVE board_4x4 = Inr 0"
    unfolding board_4x4_def by code_simp
  have r4: "perimeter_score REAL_RED board_4x4 = Inr 16"
    unfolding board_4x4_def by code_simp
  show ?thesis
    using perimeter_score_boundary [OF f2, of REAL_RED]
      perimeter_score_boundary [OF board_4x4_flatten, of OLD_OLIVE] f2 p2 p4 r4 board_4x4_flatten
    by simp
qed

theorem perimeter_unit_board_counterexample:
  "flatten board_unit = Inr [[Some REAL_RED]] \<and> is_corner 1 0 0
   \<and> perimeter_score REAL_RED board_unit = Inr 4"
  unfolding board_unit_def by code_simp

declare get_block.simps [simp del]

lemma first_found_None: "first_found rs = None \<longleftrightarrow> (\<forall>r \<in> set rs. r = None)"
  by (induction rs rule: first_found.induct) auto

lemma first_found_Some: "first_found rs = Some v \<Longrightarrow> Some v \<in> set rs"
  by (induction rs rule: first_found.induct) auto

lemma get_block_outside: "\<not> contains b loc \<Longrightarrow> get_block b loc lv = None"
  by (cases b) (auto simp: get_block.simps contains_def Let_def)

lemma nodes_self: "b \<in> set (nodes b)"
  by (cases b) simp

lemma nodes_child: "c \<in> set (children b) \<Longrightarrow> nd \<in> set (nodes c) \<Longrightarrow> nd \<in> set (nodes b)"
  by (cases b) auto

lemma quadtree_child_contains:
  assumes q: "quadtree (Block pos sz None lvl md cs)"
    and c: "contains (Block pos sz None lvl md cs) loc"
  shows "\<exists>child \<in> set cs. contains child loc"
proof -
  let ?h = "sz div 2"
  from q have ch: "\<And>child. child \<in> set cs \<Longrightarrow> 2 * bsize child = sz"
    and ps: "set (map position cs) =
               {(fst pos, snd pos), (fst pos + ?h, snd pos),
                (fst pos, snd pos + ?h), (fst pos + ?h, snd pos + ?h)}"
    by simp_all
  let ?p = "(fst pos + (if fst loc < fst pos + ?h then 0 else ?h),
             snd pos + (if snd loc < snd pos + ?h then 0 else ?h))"
  have "?p \<in> set (map position cs)" unfolding ps by auto
  then obtain child where child: "child \<in> set cs" and p: "position child = ?p" by auto
  have h: "bsize child = ?h" using ch [OF child] by simp
  have "sz = 2 * ?h" using ch [OF child] by presburger
  then have "fst loc < fst pos + 2 * ?h" "snd loc < snd pos + 2 * ?h"
    "fst pos \<le> fst loc" "snd pos \<le> snd loc"
    using c by (simp_all add: contains_def)
  then have "contains child loc"
    unfolding contains_def p h by (auto split: if_splits)
  with child show ?thesis by blast
qed

lemma get_block_inside:
  "quadtree b \<Longrightarrow> level b \<le> lv \<Longrightarrow> contains b loc \<Longrightarrow>
     \<exists>nd. get_block b loc lv = Some nd \<and> nd \<in> set (nodes b) \<and> contains nd loc
          \<and> (level nd = lv \<or> (level nd < lv \<and> colour nd \<noteq> None))"
proof (induction b)
  case (Block pos sz col lvl md cs)
  let ?b = "Block pos sz col lvl md cs"
  have inside: "fst pos \<le> fst loc \<and> fst loc < fst pos + sz \<and> snd pos \<le> snd loc \<and> snd loc < snd pos + sz"
    using Block.prems(3) by (simp add: contains_def)
  show ?case
  proof (cases "lv = lvl")
    case True
    then have "get_block ?b loc lv = Some ?b"
      using inside by (simp add: get_block.simps Let_def)
    then show ?thesis using Block.prems(3) True by simp
  next
    case False
    then have lt: "lvl < lv" using Block.prems(2) by simp
    show ?thesis
    proof (cases col)
      case (Some c)
      then have "get_block ?b loc lv = Some ?b"
        using inside False by (simp add: get_block.simps Let_def)
      then show ?thesis using Block.prems(3) lt Some by (cases c) auto
    next
      case None
      have gb: "get_block ?b loc lv = first_found (map (\<lambda>child. get_block child loc lv) cs)"
        using inside False None by (simp add: get_block.simps Let_def)
      from quadtree_child_contains [OF Block.prems(1) [unfolded None] Block.prems(3) [unfolded None]]
      obtain c0 where c0: "c0 \<in> set cs" "contains c0 loc" by blast
      have child: "quadtree c \<and> level c \<le> lv" if "c \<in> set cs" for c
        using Block.prems(1) that lt by (simp add: None)
      have "get_block c0 loc lv \<noteq> None"
        using Block.IH [OF c0(1) _ _ c0(2)] child [OF c0(1)] by auto
      then have "first_found (map (\<lambda>child. get_block child loc lv) cs) \<noteq> None"
        using c0(1) by (auto simp: first_found_None)
      then obtain nd where nd: "first_found (map (\<lambda>child. get_block child loc lv) cs) = Some nd"
        by auto
      from first_found_Some [OF nd] obtain c where c: "c \<in> set cs" "get_block c loc lv = Some nd"
        by auto
      have cin: "contains c loc"
        using c(2) get_block_outside [of c loc lv] by auto
      from Block.IH [OF c(1) _ _ cin] child [OF c(1)] c(2)
      have "nd \<in> set (nodes c) \<and> contains nd loc
          \<and> (level nd = lv \<or> (level nd < lv \<and> colour nd \<noteq> None))"
        by auto
      then show ?thesis using gb nd c(1) by auto
    qed
  qed
qed

lemma nodes_level:
  "quadtree b \<Longrightarrow> nd \<in> set (nodes b) \<Longrightarrow> level b \<le> level nd \<and> (level nd = level b \<longrightarrow> nd = b)"
proof (induction b)
  case (Block pos sz col lvl md cs)
  show ?case
  proof (cases "nd = Block pos sz col lvl md cs")
    case True
    then show ?thesis by simp
  next
    case False
    with Block.prems(2) obtain c where c: "c \<in> set cs" "nd \<in> set (nodes c)" by auto
    then have "col = None" using Block.prems(1) by (cases col) auto
    then have "quadtree c" "level c = lvl + 1" using Block.prems(1) c(1) by simp_all
    with Block.IH [OF c(1) _ c(2)] show ?thesis by simp
  qed
qed

lemma nodes_contains:
  "quadtree b \<Longrightarrow> nd \<in> set (nodes b) \<Longrightarrow> contains nd loc \<Longrightarrow> contains b loc"
proof (induction b)
  case (Block pos sz col lvl md cs)
  show ?case
  proof (cases "nd = Block pos sz col lvl md cs")
    case True
    then show ?thesis using Block.prems(3) by simp
  next
    case False
    with Block.prems(2) obtain c where c: "c \<in> set cs" "nd \<in> set (nodes c)" by auto
    then have none: "col = None" using Block.prems(1) by (cases col) auto
    let ?h = "sz div 2"
    have qc: "quadtree c" and sc: "2 * bsize c = sz"
      and ps: "set (map position cs) =
               {(fst pos, snd pos), (fst pos + ?h, snd pos),
                (fst pos, snd pos + ?h), (fst pos + ?h, snd pos + ?h)}"
      using Block.prems(1) c(1) by (simp_all add: none)
    have cc: "contains c loc" by (rule Block.IH [OF c(1) qc c(2) Block.prems(3)])
    have h: "bsize c = ?h" "sz = 2 * ?h" using sc by presburger+
    have "position c \<in> set (map position cs)" using c(1) by simp
    then have "position c \<in> {(fst pos, snd pos), (fst pos + ?h, snd pos),
                (fst pos, snd pos + ?h), (fst pos + ?h, snd pos + ?h)}"
      unfolding ps .
    then show ?thesis
      using cc h by (auto simp: contains_def)
  qed
qed

lemma children_disjoint:
  assumes q: "quadtree (Block pos sz None lvl md cs)"
    and c1: "c1 \<in> set cs" "contains c1 loc" and c2: "c2 \<in> set cs" "contains c2 loc"
  shows "c1 = c2"
proof -
  let ?h = "sz div 2"
  let ?corners = "{(fst pos, snd pos), (fst pos + ?h, snd pos),
                (fst pos, snd pos + ?h), (fst pos + ?h, snd pos + ?h)}"
  from q have len: "length cs = 4"
    and ch: "\<And>c. c \<in> set cs \<Longrightarrow> 2 * bsize c = sz"
    and ps: "set (map position cs) = ?corners"
    by simp_all
  have h1: "bsize c1 = ?h" and h2: "bsize c2 = ?h" using ch [OF c1(1)] ch [OF c2(1)] by presburger+
  have hpos: "0 < ?h" using c1(2) h1 by (simp add: contains_def)
  have p1: "position c1 \<in> ?corners" and p2: "position c2 \<in> ?corners"
    using c1(1) c2(1) ps [symmetric] by simp_all
  have same: "position c1 = position c2"
    using p1 p2 c1(2) c2(2) h1 h2 by (auto simp: contains_def prod_eq_iff)
  obtain px py where pos: "pos = (px, py)" by (cases pos)
  have "card ?corners = 4" using hpos by (simp add: pos)
  then have "card (set (map position cs)) = length (map position cs)"
    using len ps by simp
  then have "distinct (map position cs)" by (rule card_distinct)
  then have "inj_on position (set cs)" by (simp add: distinct_map)
  then show ?thesis using same c1(1) c2(1) by (auto dest: inj_onD)
qed

lemma nodes_unique:
  "quadtree b \<Longrightarrow> nd1 \<in> set (nodes b) \<Longrightarrow> nd2 \<in> set (nodes b)
   \<Longrightarrow> contains nd1 loc \<Longrightarrow> contains nd2 loc \<Longrightarrow> level nd1 = level nd2 \<Longrightarrow> nd1 = nd2"
proof (induction b)
  case (Block pos sz col lvl md cs)
  let ?b = "Block pos sz col lvl md cs"
  show ?case
  proof (cases "nd1 = ?b \<or> nd2 = ?b")
    case True
    then show ?thesis
      using nodes_level [OF Block.prems(1) Block.prems(2)]
        nodes_level [OF Block.prems(1) Block.prems(3)] Block.prems(6) by auto
  next
    case False
    with Block.prems(2,3) obtain c1 c2 where
      c1: "c1 \<in> set cs" "nd1 \<in> set (nodes c1)" and c2: "c2 \<in> set cs" "nd2 \<in> set (nodes c2)"
      by auto
    then have none: "col = None" using Block.prems(1) by (cases col) auto
    have q: "quadtree c1" "quadtree c2" using Block.prems(1) c1(1) c2(1) by (simp_all add: none)
    have "contains c1 loc" "contains c2 loc"
      using nodes_contains [OF q(1) c1(2) Block.prems(4)] nodes_contains [OF q(2) c2(2) Block.prems(5)]
      by simp_all
    then have "c1 = c2"
      using children_disjoint [OF Block.prems(1) [unfolded none] c1(1) _ c2(1)] by simp
    then show ?thesis
      using Block.IH [OF c1(1) q(1) c1(2) _ Block.prems(4,5,6)] c2(2) by simp
  qed
qed

lemma leaf_deepest:
  "quadtree b \<Longrightarrow> lf \<in> set (nodes b) \<Longrightarrow> colour lf \<noteq> None \<Longrightarrow> contains lf loc
   \<Longrightarrow> nd \<in> set (nodes b) \<Longrightarrow> contains nd loc \<Longrightarrow> level nd \<le> level lf"
proof (induction b)
  case (Block pos sz col lvl md cs)
  let ?b = "Block pos sz col lvl md cs"
  show ?case
  proof (cases "nd = ?b")
    case True
    then show ?thesis using nodes_level [OF Block.prems(1) Block.prems(2)] by simp
  next
    case False
    with Block.prems(5) obtain c2 where c2: "c2 \<in> set cs" "nd \<in> set (nodes c2)" by auto
    then have none: "col = None" using Block.prems(1) by (cases col) auto
    then have "lf \<noteq> ?b" using Block.prems(3) by auto
    with Block.prems(2) obtain c1 where c1: "c1 \<in> set cs" "lf \<in> set (nodes c1)" by auto
    have q: "quadtree c1" "quadtree c2" using Block.prems(1) c1(1) c2(1) by (simp_all add: none)
    have "contains c1 loc" "contains c2 loc"
      using nodes_contains [OF q(1) c1(2) Block.prems(4)] nodes_contains [OF q(2) c2(2) Block.prems(6)]
      by simp_all
    then have "c1 = c2"
      using children_disjoint [OF Block.prems(1) [unfolded none] c1(1) _ c2(1)] by simp
    then show ?thesis
      using Block.IH [OF c1(1) q(1) c1(2) Block.prems(3,4) _ Block.prems(6)] c2(2) by simp
  qed
qed

text \<open>
  C5: on a quadtree board, for a target level that is at least the board's own level,
  \<open>_get_block\<close> returns None exactly when the coordinate is outside the board's extent
  (low edges included, high edges excluded: the top-left corner is inside, the
  bottom-right corner is outside). Otherwise it returns a node of the board that
  contains the coordinate and either is at the target level or is a leaf at a smaller
  level; this node is the deepest node containing the coordinate among the nodes whose
  level is at most the target level, and the only one at its level.
\<close>

theorem get_block_locates:
  assumes "quadtree b" and "level b \<le> lv"
  shows "(get_block b loc lv = None \<longleftrightarrow> \<not> contains b loc)
   \<and> (contains b loc \<longrightarrow>
        (\<exists>nd. get_block b loc lv = Some nd \<and> nd \<in> set (nodes b) \<and> contains nd loc
           \<and> (level nd = lv \<or> (level nd < lv \<and> colour nd \<noteq> None))
           \<and> (\<forall>nd' \<in> set (nodes b). contains nd' loc \<and> level nd' \<le> lv \<longrightarrow>
                 level nd' \<le> level nd \<and> (level nd' = level nd \<longrightarrow> nd' = nd))))
   \<and> (0 < bsize b \<longrightarrow> contains b (position b))
   \<and> \<not> contains b (fst (position b) + bsize b, snd (position b) + bsize b)"
proof -
  have inside: "\<exists>nd. get_block b loc lv = Some nd \<and> nd \<in> set (nodes b) \<and> contains nd loc
           \<and> (level nd = lv \<or> (level nd < lv \<and> colour nd \<noteq> None))
           \<and> (\<forall>nd' \<in> set (nodes b). contains nd' loc \<and> level nd' \<le> lv \<longrightarrow>
                 level nd' \<le> level nd \<and> (level nd' = level nd \<longrightarrow> nd' = nd))"
    if c: "contains b loc"
  proof -
    from get_block_inside [OF assms c] obtain nd where
      nd: "get_block b loc lv = Some nd" "nd \<in> set (nodes b)" "contains nd loc"
        "level nd = lv \<or> (level nd < lv \<and> colour nd \<noteq> None)"
      by blast
    have "level nd' \<le> level nd \<and> (level nd' = level nd \<longrightarrow> nd' = nd)"
      if n': "nd' \<in> set (nodes b)" "contains nd' loc" "level nd' \<le> lv" for nd'
    proof -
      have "level nd' \<le> level nd"
        using nd(4) n'(3) leaf_deepest [OF assms(1) nd(2) _ nd(3) n'(1,2)] by auto
      moreover have "level nd' = level nd \<longrightarrow> nd' = nd"
        using nodes_unique [OF assms(1) n'(1) nd(2) n'(2) nd(3)] by blast
      ultimately show ?thesis by blast
    qed
    with nd show ?thesis by blast
  qed
  have none: "get_block b loc lv = None \<longleftrightarrow> \<not> contains b loc"
    using inside get_block_outside [of b loc lv] by auto
  have "0 < bsize b \<longrightarrow> contains b (position b)"
    "\<not> contains b (fst (position b) + bsize b, snd (position b) + bsize b)"
    by (simp_all add: contains_def)
  with none inside show ?thesis by blast
qed

theorem get_block_locates_witness:
  "quadtree board_4x4 \<and> level board_4x4 \<le> 2
   \<and> contains board_4x4 (1, 1)
   \<and> get_block board_4x4 (1, 1) 2 = Some (Block (1, 1) 1 (Some OLD_OLIVE) 2 2 [])
   \<and> get_block board_4x4 (3, 1) 2 = Some (Block (2, 0) 2 (Some REAL_RED) 1 2 [])
   \<and> get_block board_4x4 (0, 0) 2 = Some (Block (0, 0) 1 (Some REAL_RED) 2 2 [])
   \<and> \<not> contains board_4x4 (4, 4) \<and> get_block board_4x4 (4, 4) 2 = None
   \<and> \<not> contains board_4x4 (4, 0) \<and> get_block board_4x4 (4, 0) 2 = None"
proof -
  have q: "quadtree board_4x4" by (rule board_4x4_quadtree)
  have l: "level board_4x4 \<le> 2" by (simp add: board_4x4_def)
  have c: "contains board_4x4 (1, 1)" "\<not> contains board_4x4 (4, 4)" "\<not> contains board_4x4 (4, 0)"
    by (simp_all add: contains_def board_4x4_def)
  have g: "get_block board_4x4 (1, 1) 2 = Some (Block (1, 1) 1 (Some OLD_OLIVE) 2 2 [])"
    "get_block board_4x4 (3, 1) 2 = Some (Block (2, 0) 2 (Some REAL_RED) 1 2 [])"
    "get_block board_4x4 (0, 0) 2 = Some (Block (0, 0) 1 (Some REAL_RED) 2 2 [])"
    unfolding board_4x4_def by code_simp+
  show ?thesis
    using get_block_locates [OF q l, of "(4, 4)"] get_block_locates [OF q l, of "(4, 0)"] q l c g
    by simp
qed

lemma first_best_Cons_later:
  assumes "first_best penalty ts k" and "net penalty t < net penalty (ts ! k)"
  shows "first_best penalty (t # ts) (Suc k)"
  unfolding first_best_def
proof (intro conjI allI impI)
  show "Suc k < length (t # ts)" using assms(1) by (simp add: first_best_def)
next
  fix j assume "j < length (t # ts)"
  then show "net penalty ((t # ts) ! j) \<le> net penalty ((t # ts) ! Suc k)"
    using assms by (cases j) (auto simp: first_best_def)
next
  fix j assume "j < Suc k"
  then show "net penalty ((t # ts) ! j) < net penalty ((t # ts) ! Suc k)"
    using assms by (cases j) (auto simp: first_best_def)
qed

lemma first_best_Cons_head:
  assumes "\<forall>u \<in> set ts. net penalty u \<le> net penalty t"
  shows "first_best penalty (t # ts) 0"
  unfolding first_best_def
proof (intro conjI allI impI)
  fix j assume "j < length (t # ts)"
  then show "net penalty ((t # ts) ! j) \<le> net penalty ((t # ts) ! 0)"
    using assms by (cases j) auto
qed simp_all

lemma best_loop_result:
  "(if \<forall>t \<in> set ts. net penalty t \<le> bs
    then best_loop penalty ts bs bm = (bs, bm)
    else \<exists>k. first_best penalty ts k \<and> bs < net penalty (ts ! k)
           \<and> best_loop penalty ts bs bm = (net penalty (ts ! k), Some (move_of (ts ! k))))"
proof (induction ts arbitrary: bs bm)
  case Nil
  then show ?case by simp
next
  case (Cons t ts)
  show ?case
  proof (cases "net penalty t > bs")
    case True
    have step: "best_loop penalty (t # ts) bs bm =
                  best_loop penalty ts (net penalty t) (Some (move_of t))"
      using True by (simp add: net_def move_of_def)
    show ?thesis
    proof (cases "\<forall>u \<in> set ts. net penalty u \<le> net penalty t")
      case all: True
      have "best_loop penalty ts (net penalty t) (Some (move_of t)) = (net penalty t, Some (move_of t))"
        using Cons.IH [of "net penalty t" "Some (move_of t)"] all by simp
      then have "first_best penalty (t # ts) 0 \<and> bs < net penalty ((t # ts) ! 0)
           \<and> best_loop penalty (t # ts) bs bm
               = (net penalty ((t # ts) ! 0), Some (move_of ((t # ts) ! 0)))"
        using step True first_best_Cons_head [OF all] by simp
      then show ?thesis using True by (auto simp del: best_loop.simps)
    next
      case False
      with Cons.IH [of "net penalty t" "Some (move_of t)"] obtain k where
        k: "first_best penalty ts k" "net penalty t < net penalty (ts ! k)"
          "best_loop penalty ts (net penalty t) (Some (move_of t))
             = (net penalty (ts ! k), Some (move_of (ts ! k)))"
        by auto
      have "first_best penalty (t # ts) (Suc k) \<and> bs < net penalty ((t # ts) ! Suc k)
           \<and> best_loop penalty (t # ts) bs bm
               = (net penalty ((t # ts) ! Suc k), Some (move_of ((t # ts) ! Suc k)))"
        using step True k first_best_Cons_later [OF k(1,2)] by simp
      then show ?thesis using True by (auto simp del: best_loop.simps)
    qed
  next
    case le: False
    have step: "best_loop penalty (t # ts) bs bm = best_loop penalty ts bs bm"
      using le by (simp add: net_def)
    show ?thesis
    proof (cases "\<forall>u \<in> set ts. net penalty u \<le> bs")
      case True
      then show ?thesis using Cons.IH [of bs bm] step le by (simp del: best_loop.simps)
    next
      case False
      with Cons.IH [of bs bm] obtain k where
        k: "first_best penalty ts k" "bs < net penalty (ts ! k)"
          "best_loop penalty ts bs bm = (net penalty (ts ! k), Some (move_of (ts ! k)))"
        by auto
      have "net penalty t < net penalty (ts ! k)" using le k(2) by simp
      then have "first_best penalty (t # ts) (Suc k) \<and> bs < net penalty ((t # ts) ! Suc k)
           \<and> best_loop penalty (t # ts) bs bm
               = (net penalty ((t # ts) ! Suc k), Some (move_of ((t # ts) ! Suc k)))"
        using step k first_best_Cons_later [OF k(1)] by simp
      then show ?thesis using False by (auto simp del: best_loop.simps)
    qed
  qed
qed

lemma choose_move_result:
  assumes "score (boards w board) = Inr baseline"
  shows "(if \<forall>t \<in> set trials. net penalty t \<le> baseline
          then choose_move penalty score trials board w
                 = Inr (Some (PASS, Some (board, boards w board)))
          else \<exists>k. first_best penalty trials k \<and> baseline < net penalty (trials ! k)
                 \<and> choose_move penalty score trials board w = Inr (Some (move_of (trials ! k))))"
proof (cases "\<forall>t \<in> set trials. net penalty t \<le> baseline")
  case True
  then have "best_loop penalty trials baseline None = (baseline, None)"
    using best_loop_result [of trials penalty baseline None] by simp
  then show ?thesis using True assms by (simp add: choose_move_def)
next
  case False
  with best_loop_result [of trials penalty baseline None] obtain k where
    k: "first_best penalty trials k" "baseline < net penalty (trials ! k)"
      "best_loop penalty trials baseline None
         = (net penalty (trials ! k), Some (move_of (trials ! k)))"
    by auto
  then have "choose_move penalty score trials board w = Inr (Some (move_of (trials ! k)))"
    using assms by (simp add: choose_move_def)
  with k False show ?thesis by auto
qed

text \<open>
  C4: a triggered SmartPlayer whose trial loop recorded the list \<open>trials\<close>, with
  \<open>baseline\<close> the score of the real board: if no trial has a net above the baseline,
  the move is PASS on the real board; otherwise it is the move of the first trial with
  the largest net (no trial has a larger net, every earlier trial has a strictly smaller
  one), and that net is above the baseline. With difficulty 0 there is no trial.
\<close>

theorem smart_generate_move_selects:
  assumes "cp_proceed p"
    and "smart_trials apply_action score goal_col board (nat (cp_num_test p)) [] w e
           = Inr (trials, w', e')"
    and "score (boards w' board) = Inr baseline"
  shows "(if \<forall>t \<in> set trials. net penalty t \<le> baseline
          then smart_generate_move apply_action penalty score goal_col p board w e
                 = Inr (Some (PASS, Some (board, boards w' board)), p\<lparr>cp_proceed := False\<rparr>, w', e')
          else \<exists>k. first_best penalty trials k \<and> baseline < net penalty (trials ! k)
                 \<and> smart_generate_move apply_action penalty score goal_col p board w e
                     = Inr (Some (move_of (trials ! k)), p\<lparr>cp_proceed := False\<rparr>, w', e'))
         \<and> (cp_num_test p \<le> 0 \<longrightarrow> trials = [] \<and> w' = w \<and> e' = e)"
proof -
  have gm: "smart_generate_move apply_action penalty score goal_col p board w e =
          (case choose_move penalty score trials board w' of
             Inl err \<Rightarrow> Inl err
           | Inr move \<Rightarrow> Inr (move, p\<lparr>cp_proceed := False\<rparr>, w', e'))"
    using assms(1,2) by (simp add: smart_generate_move_def)
  have zero: "cp_num_test p \<le> 0 \<longrightarrow> trials = [] \<and> w' = w \<and> e' = e"
    using assms(2) by auto
  show ?thesis
  proof (cases "\<forall>t \<in> set trials. net penalty t \<le> baseline")
    case True
    then show ?thesis
      using choose_move_result [where score = score and w = w' and board = board and baseline = baseline
          and trials = trials and penalty = penalty, OF assms(3)] gm zero by simp
  next
    case False
    with choose_move_result [where score = score and w = w' and board = board and baseline = baseline
          and trials = trials and penalty = penalty, OF assms(3)] obtain k where
      "first_best penalty trials k" "baseline < net penalty (trials ! k)"
      "choose_move penalty score trials board w' = Inr (Some (move_of (trials ! k)))"
      by auto
    then show ?thesis using False gm zero by auto
  qed
qed

lemma frame_next_id: "frame apply_action \<Longrightarrow> next_id (snd (apply_action a target c w)) = next_id w"
  unfolding frame_def by blast

lemma frame_boards:
  "frame apply_action \<Longrightarrow> (\<And>nd. target \<noteq> Some (j, nd))
   \<Longrightarrow> boards (snd (apply_action a target c w)) j = boards w j"
  unfolding frame_def by blast

lemma sample_draw_frame:
  assumes f: "frame apply_action" 
    and d: "sample_draw apply_action goal_col board w e = Inr (a, am, k, ok, w', e')"
  shows "k = next_id w \<and> next_id w' = Suc (next_id w) \<and> (\<forall>j<next_id w. boards w' j = boards w j)"
proof -
  let ?w1 = "w\<lparr>boards := (boards w)(next_id w := boards w board), next_id := Suc (next_id w)\<rparr>"
  from d obtain copy_move where
    k: "k = next_id w"
    and ap: "apply_action a (map_option (Pair (next_id w)) copy_move) goal_col ?w1 = (ok, w')"
    by (auto simp: sample_draw_def create_copy_def Let_def split: sum.splits prod.splits)
  have w': "w' = snd (apply_action a (map_option (Pair (next_id w)) copy_move) goal_col ?w1)"
    by (simp add: ap)
  have n: "next_id w' = Suc (next_id w)"
    unfolding w' frame_next_id [OF f] by simp
  have "boards w' j = boards w j" if "j < next_id w" for j
  proof -
    have "\<And>nd. map_option (Pair (next_id w)) copy_move \<noteq> Some (j, nd)"
      using that by (cases copy_move) auto
    then have "boards w' j = boards ?w1 j"
      unfolding w' by (rule frame_boards [OF f])
    then show ?thesis using that by simp
  qed
  with k n show ?thesis by blast
qed

lemma smart_trials_frame:
  "frame apply_action \<Longrightarrow>
   smart_trials apply_action score goal_col board n trials w e = Inr (trials', w', e') \<Longrightarrow>
   next_id w' = next_id w + n \<and> (\<forall>j<next_id w. boards w' j = boards w j)"
proof (induction n arbitrary: trials w e)
  case 0
  then show ?case by simp
next
  case (Suc n)
  from Suc.prems(2) obtain a am k ok w1 e1 where
    d: "sample_draw apply_action goal_col board w e = Inr (a, am, k, ok, w1, e1)"
    by (auto split: sum.splits)
  note fr = sample_draw_frame [OF Suc.prems(1) d]
  from Suc.prems(2) d obtain trials1 where
    "smart_trials apply_action score goal_col board n trials1 w1 e1 = Inr (trials', w', e')"
    by (auto split: sum.splits if_splits)
  from Suc.IH [OF Suc.prems(1) this]
  have "next_id w' = next_id w1 + n" "\<forall>j<next_id w1. boards w' j = boards w1 j"
    by simp_all
  with fr show ?case by auto
qed

lemma random_loop_frame:
  assumes "random_loop apply_action goal_col board w e = Some y"
  shows "frame apply_action \<longrightarrow>
         (\<forall>mv w' e'. y = Inr (mv, w', e') \<longrightarrow>
            next_id w < next_id w' \<and> (\<forall>j<next_id w. boards w' j = boards w j))"
proof (rule random_loop.raw_induct
    [where P = "\<lambda>ap (c :: colour) (b :: nat) w (e :: entropy) y.
       frame ap \<longrightarrow>
         (\<forall>mv w' e'. y = Inr (mv, w', e') \<longrightarrow>
            next_id w < next_id w' \<and> (\<forall>j<next_id w. boards w' j = boards w j))"])
  show "random_loop apply_action goal_col board w e = Some y" by (rule assms)
next
  fix rl :: "apply_fun \<Rightarrow> colour \<Rightarrow> nat \<Rightarrow> world \<Rightarrow> entropy \<Rightarrow>
     (error + ((action \<times> node_ref option) \<times> world \<times> entropy)) option"
  fix ap :: apply_fun and c :: colour and b :: nat and w0 :: world and e0 :: entropy
    and y0 :: "error + ((action \<times> node_ref option) \<times> world \<times> entropy)"
  assume IH: "\<And>ap c b w e y. rl ap c b w e = Some y \<Longrightarrow>
       frame ap \<longrightarrow>
         (\<forall>mv w' e'. y = Inr (mv, w', e') \<longrightarrow>
            next_id w < next_id w' \<and> (\<forall>j<next_id w. boards w' j = boards w j))"
    and step: "(case sample_draw ap c b w0 e0 of
        Inl err \<Rightarrow> Some (Inl err)
      | Inr (actions, actual_move, new_board, ok, w', e') \<Rightarrow>
          if ok then Some (Inr ((actions, actual_move), w', e'))
          else rl ap c b w' e') = Some y0"
  show "frame ap \<longrightarrow>
         (\<forall>mv w' e'. y0 = Inr (mv, w', e') \<longrightarrow>
            next_id w0 < next_id w' \<and> (\<forall>j<next_id w0. boards w' j = boards w0 j))"
  proof (intro impI allI)
    fix mv w' e'
    assume f: "frame ap" and y: "y0 = Inr (mv, w', e')"
    from step y obtain a am k ok w1 e1 where
      d: "sample_draw ap c b w0 e0 = Inr (a, am, k, ok, w1, e1)"
      by (cases "sample_draw ap c b w0 e0") auto
    note fr = sample_draw_frame [OF f d]
    show "next_id w0 < next_id w' \<and> (\<forall>j<next_id w0. boards w' j = boards w0 j)"
    proof (cases ok)
      case True
      then have "w' = w1" using step d y by simp
      then show ?thesis using fr by simp
    next
      case False
      then have "rl ap c b w1 e1 = Some y0"
        using step d by simp
      from IH [OF this] f y
      have "next_id w1 < next_id w'" "\<forall>j<next_id w1. boards w' j = boards w1 j"
        by simp_all
      with fr show ?thesis by auto
    qed
  qed
qed

text \<open>
  C6: provided that applying an action changes at most the board object its target node
  belongs to, every board object that exists when \<open>generate_move\<close> is called, the real
  board among them, is the same tree when the call returns, for the random and for the
  smart player. Every draw creates one new board object, the copy, and its action is
  applied to a node of that copy: a draw that returns leaves every earlier board object
  as it was, SmartPlayer creates as many board objects as it makes draws, and a
  triggered RandomPlayer creates at least one.
\<close>

theorem generate_move_keeps_board:
  assumes "frame apply_action" and "board < next_id w"
  shows "(\<forall>res p' w' e'.
            random_generate_move apply_action goal_col p board w e = Some (Inr (res, p', w', e'))
            \<longrightarrow> boards w' board = boards w board
                \<and> (\<forall>j<next_id w. boards w' j = boards w j)
                \<and> (if cp_proceed p then next_id w < next_id w' else next_id w' = next_id w))
       \<and> (\<forall>res p' w' e'.
            smart_generate_move apply_action penalty score goal_col p board w e = Inr (res, p', w', e')
            \<longrightarrow> boards w' board = boards w board
                \<and> (\<forall>j<next_id w. boards w' j = boards w j)
                \<and> next_id w' = next_id w + (if cp_proceed p then nat (cp_num_test p) else 0))
       \<and> (\<forall>a am k ok w' e'.
            sample_draw apply_action goal_col board w e = Inr (a, am, k, ok, w', e')
            \<longrightarrow> k = next_id w \<and> k \<noteq> board \<and> next_id w' = Suc (next_id w)
                \<and> (\<forall>j<next_id w. boards w' j = boards w j))"
proof -
  have rnd: "boards w' board = boards w board
        \<and> (\<forall>j<next_id w. boards w' j = boards w j)
        \<and> (if cp_proceed p then next_id w < next_id w' else next_id w' = next_id w)"
    if r: "random_generate_move apply_action goal_col p board w e = Some (Inr (res, p', w', e'))"
    for res p' w' e'
  proof -
    have "(\<forall>j<next_id w. boards w' j = boards w j)
          \<and> (if cp_proceed p then next_id w < next_id w' else next_id w' = next_id w)"
    proof (cases "cp_proceed p")
      case True
      with r obtain mv where "random_loop apply_action goal_col board w e = Some (Inr (mv, w', e'))"
        by (auto simp: random_generate_move_def split: option.splits sum.splits)
      from random_loop_frame [OF this] assms(1) True show ?thesis by simp
    next
      case False
      with r show ?thesis by (simp add: random_generate_move_def)
    qed
    then show ?thesis using assms(2) by simp
  qed
  have smt: "boards w' board = boards w board
        \<and> (\<forall>j<next_id w. boards w' j = boards w j)
        \<and> next_id w' = next_id w + (if cp_proceed p then nat (cp_num_test p) else 0)"
    if s: "smart_generate_move apply_action penalty score goal_col p board w e = Inr (res, p', w', e')"
    for res p' w' e'
  proof -
    have "(\<forall>j<next_id w. boards w' j = boards w j)
          \<and> next_id w' = next_id w + (if cp_proceed p then nat (cp_num_test p) else 0)"
    proof (cases "cp_proceed p")
      case True
      with s obtain trials where
        "smart_trials apply_action score goal_col board (nat (cp_num_test p)) [] w e = Inr (trials, w', e')"
        by (auto simp: smart_generate_move_def split: sum.splits)
      from smart_trials_frame [OF assms(1) this] True show ?thesis by simp
    next
      case False
      with s show ?thesis by (simp add: smart_generate_move_def)
    qed
    then show ?thesis using assms(2) by simp
  qed
  have drw: "k = next_id w \<and> k \<noteq> board \<and> next_id w' = Suc (next_id w)
                \<and> (\<forall>j<next_id w. boards w' j = boards w j)"
    if d: "sample_draw apply_action goal_col board w e = Inr (a, am, k, ok, w', e')"
    for a am k ok w' e'
    using sample_draw_frame [OF assms(1) d] assms(2) by simp
  from rnd smt drw show ?thesis by blast
qed

lemma paint_only_frame: "frame paint_only"
  unfolding frame_def paint_only_def by (auto split: option.splits)

theorem smart_generate_move_selects_witness:
  "cp_proceed smart_three \<and> \<not> isl trial_run
   \<and> fst (projr trial_run)
       = [(PAINT, Some (0, Block (0, 0) 1 (Some REAL_RED) 2 2 []), 2),
          (PAINT, Some (0, Block (2, 0) 2 (Some REAL_RED) 1 2 []), 4)]
   \<and> perimeter_score OLD_OLIVE (boards (fst (snd (projr trial_run))) 0) = Inr 0
   \<and> (\<exists>k. first_best paint_penalty (fst (projr trial_run)) k
          \<and> 0 < net paint_penalty (fst (projr trial_run) ! k)
          \<and> smart_run = Inr (Some (move_of (fst (projr trial_run) ! k)),
                             smart_three\<lparr>cp_proceed := False\<rparr>,
                             fst (snd (projr trial_run)), snd (snd (projr trial_run))))
   \<and> fst (projr smart_run) = Some (PAINT, Some (0, Block (2, 0) 2 (Some REAL_RED) 1 2 []))"
proof -
  have p: "cp_proceed smart_three" by (simp add: smart_three_def)
  have r: "\<not> isl trial_run" by code_simp
  have run: "smart_trials paint_only (perimeter_score OLD_OLIVE) OLD_OLIVE 0
       (nat (cp_num_test smart_three)) [] world_4x4 draws_three
     = Inr (fst (projr trial_run), fst (snd (projr trial_run)), snd (snd (projr trial_run)))"
    using r unfolding trial_run_def by simp
  have tr: "fst (projr trial_run)
       = [(PAINT, Some (0, Block (0, 0) 1 (Some REAL_RED) 2 2 []), 2),
          (PAINT, Some (0, Block (2, 0) 2 (Some REAL_RED) 1 2 []), 4)]"
    by code_simp
  have b: "perimeter_score OLD_OLIVE (boards (fst (snd (projr trial_run))) 0) = Inr 0"
    by code_simp
  have nets: "\<not> (\<forall>t \<in> set (fst (projr trial_run)). net paint_penalty t \<le> 0)"
    unfolding tr by (simp add: net_def paint_penalty_def)
  have ex: "\<exists>k. first_best paint_penalty (fst (projr trial_run)) k
          \<and> 0 < net paint_penalty (fst (projr trial_run) ! k)
          \<and> smart_run = Inr (Some (move_of (fst (projr trial_run) ! k)),
                             smart_three\<lparr>cp_proceed := False\<rparr>,
                             fst (snd (projr trial_run)), snd (snd (projr trial_run)))"
    using smart_generate_move_selects [OF p run b, where penalty = paint_penalty] nets
    unfolding smart_run_def by simp
  have mv: "fst (projr smart_run) = Some (PAINT, Some (0, Block (2, 0) 2 (Some REAL_RED) 1 2 []))"
    by code_simp
  from p r tr b ex mv show ?thesis by blast
qed

theorem generate_move_keeps_board_witness:
  "frame paint_only \<and> 0 < next_id world_4x4
   \<and> \<not> isl smart_run
   \<and> boards (fst (snd (snd (projr smart_run)))) 0 = board_4x4
   \<and> boards (fst (snd (snd (projr smart_run)))) 2 \<noteq> board_4x4
   \<and> next_id (fst (snd (snd (projr smart_run)))) = 4
   \<and> random_run \<noteq> None \<and> \<not> isl (the random_run)
   \<and> boards (fst (snd (snd (projr (the random_run))))) 0 = board_4x4
   \<and> boards (fst (snd (snd (projr (the random_run))))) 1 \<noteq> board_4x4"
proof -
  have n: "0 < next_id world_4x4" by (simp add: world_4x4_def)
  have b0: "boards world_4x4 0 = board_4x4" by (simp add: world_4x4_def)
  have s: "\<not> isl smart_run" by code_simp
  then have srun: "smart_generate_move paint_only paint_penalty (perimeter_score OLD_OLIVE)
       OLD_OLIVE smart_three 0 world_4x4 draws_three
     = Inr (fst (projr smart_run), fst (snd (projr smart_run)),
            fst (snd (snd (projr smart_run))), snd (snd (snd (projr smart_run))))"
    unfolding smart_run_def by simp
  have r: "random_run \<noteq> None" "\<not> isl (the random_run)" by code_simp+
  then have rrun: "random_generate_move paint_only OLD_OLIVE random_ready 0 world_4x4 draws_three
     = Some (Inr (fst (projr (the random_run)), fst (snd (projr (the random_run))),
            fst (snd (snd (projr (the random_run)))), snd (snd (snd (projr (the random_run))))))"
    unfolding random_run_def by auto
  note kept_smart = generate_move_keeps_board [OF paint_only_frame n,
      where goal_col = OLD_OLIVE and p = smart_three and e = draws_three
        and penalty = paint_penalty and score = "perimeter_score OLD_OLIVE"]
  note kept_random = generate_move_keeps_board [OF paint_only_frame n,
      where goal_col = OLD_OLIVE and p = random_ready and e = draws_three]
  have ks: "boards (fst (snd (snd (projr smart_run)))) 0 = boards world_4x4 0
      \<and> next_id (fst (snd (snd (projr smart_run))))
          = next_id world_4x4 + (if cp_proceed smart_three then nat (cp_num_test smart_three) else 0)"
    using kept_smart srun by blast
  have s0: "boards (fst (snd (snd (projr smart_run)))) 0 = board_4x4"
    using ks b0 by simp
  have sn: "next_id (fst (snd (snd (projr smart_run)))) = 4"
    using ks by (simp add: smart_three_def world_4x4_def)
  have kr: "boards (fst (snd (snd (projr (the random_run))))) 0 = boards world_4x4 0"
    using kept_random rrun by blast
  have r0: "boards (fst (snd (snd (projr (the random_run))))) 0 = board_4x4"
    using kr b0 by simp
  have s2: "boards (fst (snd (snd (projr smart_run)))) 2 \<noteq> board_4x4"
    by code_simp
  have r1: "boards (fst (snd (snd (projr (the random_run))))) 1 \<noteq> board_4x4"
    by code_simp
  from paint_only_frame n s s0 s2 sn r r0 r1 show ?thesis by blast
qed

lemma randint_Inr: "randint a b e = Inr (v, e') \<Longrightarrow> a \<le> v \<and> v \<le> b"
  using randint_range [of a b e] by (auto simp: randint_def split: if_splits)

lemma randint_reaches:
  assumes "a \<le> v" and "v \<le> b"
  shows "randint a b (\<lambda>i. nat (v - a)) = Inr (v, \<lambda>i. nat (v - a))"
  using assms by (simp add: randint_def next_raw_def)

text \<open>
  On a quadtree board at the origin the two ranges agree: a draw that returns has
  located a node of the real board.
\<close>

lemma sample_draw_at_origin:
  assumes q: "quadtree (boards w board)" and o: "position (boards w board) = (0, 0)"
    and d: "sample_draw apply_action goal_col board w e = Inr (a, am, k, ok, w', e')"
    and b: "board < next_id w"
  shows "\<exists>x y lv nd. am = Some (board, nd) \<and> contains (boards w board) (x, y)
           \<and> get_block (boards w board) (x, y) lv = Some nd"
proof -
  let ?b = "boards w board"
  from d b o obtain x y lv e1 e2 e3 where
    x: "randint 0 (bsize ?b - 1) e1 = Inr (x, e2)"
    and y: "randint 0 (bsize ?b - 1) e2 = Inr (y, e3)"
    and lv: "randint (level ?b) (max_depth ?b) e3 = Inr (lv, e')"
    and am: "am = map_option (Pair board) (get_block ?b (x, y) lv)"
    by (auto simp: sample_draw_def create_copy_def Let_def split: sum.splits prod.splits)
  have c: "contains ?b (x, y)"
    using randint_Inr [OF x] randint_Inr [OF y] o by (simp add: contains_def)
  have "level ?b \<le> lv" using randint_Inr [OF lv] by simp
  from get_block_inside [OF q this c] obtain nd where "get_block ?b (x, y) lv = Some nd"
    by blast
  with am c show ?thesis by auto
qed

text \<open>
  C7: the coordinate is drawn from \<open>position\<close> to \<open>size - 1\<close>, not to
  \<open>position + size - 1\<close>. On the leaf at position \<open>(2, 2)\<close> of size 2 the range of
  \<open>random.randint(2, 1)\<close> is empty: the draw, and with it \<open>generate_move\<close> of a
  triggered random player and of a triggered smart player with a positive difficulty,
  raises ValueError instead of locating a node, whatever the random source is.
\<close>

theorem sample_draw_offset_board:
  "(\<forall>e. sample_draw paint_only OLD_OLIVE 0 world_quadrant e = Inl ValueError)
   \<and> (\<forall>e. random_generate_move paint_only OLD_OLIVE random_ready 0 world_quadrant e
          = Some (Inl ValueError))
   \<and> (\<forall>e. smart_generate_move paint_only paint_penalty (perimeter_score OLD_OLIVE) OLD_OLIVE
            smart_three 0 world_quadrant e = Inl ValueError)
   \<and> contains (boards world_quadrant 0) (3, 3)"
proof -
  have d: "sample_draw paint_only OLD_OLIVE 0 world_quadrant e = Inl ValueError" for e
    by (simp add: sample_draw_def create_copy_def world_quadrant_def choice_def MOVES_def
        randint_def Let_def)
  have r: "random_generate_move paint_only OLD_OLIVE random_ready 0 world_quadrant e
          = Some (Inl ValueError)" for e
    by (simp add: random_generate_move_def random_ready_def random_loop.simps [of _ _ _ world_quadrant] d)
  have s: "smart_generate_move paint_only paint_penalty (perimeter_score OLD_OLIVE) OLD_OLIVE
            smart_three 0 world_quadrant e = Inl ValueError" for e
    by (simp add: smart_generate_move_def smart_three_def numeral_3_eq_3 d)
  have c: "contains (boards world_quadrant 0) (3, 3)"
    by (simp add: contains_def world_quadrant_def)
  from d r s c show ?thesis by blast
qed

lemma grid_cells_finite: "finite (grid_cells n)"
proof -
  have "grid_cells n \<subseteq> {0..<int n} \<times> {0..<int n}"
    by (auto simp: grid_cells_def in_grid_def)
  then show ?thesis by (rule finite_subset) simp
qed

lemma marked_subset: "marked n visited \<subseteq> grid_cells n"
  by (auto simp: marked_def)

lemma marked_finite: "finite (marked n visited)"
  using marked_subset grid_cells_finite by (rule finite_subset)

lemma fresh_finite: "finite (fresh n T visited visited')"
  unfolding fresh_def using marked_finite by blast

lemma undiscovered_outside:
  assumes "length g = n" and "\<not> in_grid n pos"
  shows "undiscovered_blob_size (Suc d) target pos g visited = Inr (0, visited)"
  using assms by (subst undiscovered_blob_size.simps) (auto simp: in_grid_def)

lemma visit_all_neighbours:
  "(case visit_all d target g [(x + 1, y), (x - 1, y), (x, y + 1), (x, y - 1)] 0 v1 of
      Inl err \<Rightarrow> Inl err
    | Inr (c, v) \<Rightarrow> Inr (c + 1, v))
   = (case undiscovered_blob_size d target (x + 1, y) g v1 of
        Inl err \<Rightarrow> Inl err
      | Inr (c1, v2) \<Rightarrow>
     (case undiscovered_blob_size d target (x - 1, y) g v2 of
        Inl err \<Rightarrow> Inl err
      | Inr (c2, v3) \<Rightarrow>
     (case undiscovered_blob_size d target (x, y + 1) g v3 of
        Inl err \<Rightarrow> Inl err
      | Inr (c3, v4) \<Rightarrow>
     (case undiscovered_blob_size d target (x, y - 1) g v4 of
        Inl err \<Rightarrow> Inl err
      | Inr (c4, v5) \<Rightarrow> Inr (0 + c1 + c2 + c3 + c4 + 1, v5)))))"
  by (auto split: sum.splits prod.splits)

lemma undiscovered_inside:
  assumes g: "square n g" and v: "square n visited" and p: "in_grid n (x, y)"
  shows "undiscovered_blob_size (Suc d) target (x, y) g visited =
     (if visited ! nat x ! nat y \<noteq> - 1 then Inr (0, visited)
      else if g ! nat x ! nat y \<noteq> Some target
      then Inr (0, visited[nat x := (visited ! nat x)[nat y := 0]])
      else case visit_all d target g [(x + 1, y), (x - 1, y), (x, y + 1), (x, y - 1)] 0
                  (visited[nat x := (visited ! nat x)[nat y := 1]]) of
             Inl err \<Rightarrow> Inl err
           | Inr (c, v) \<Rightarrow> Inr (c + 1, v))"
proof -
  have rng: "0 \<le> x" "x < int n" "0 \<le> y" "y < int n" using p by (simp_all add: in_grid_def)
  have lg: "length g = n" using g by (simp add: square_def)
  have gc: "get_cell g x y = Inr (g ! nat x ! nat y)" by (rule get_cell_in_range [OF g rng])
  have vc: "get_cell visited x y = Inr (visited ! nat x ! nat y)"
    by (rule get_cell_in_range [OF v rng])
  have sc: "set_cell visited x y m = Inr (visited[nat x := (visited ! nat x)[nat y := m]])" for m
    by (rule set_cell_in_range [OF v rng])
  have guard: "\<not> (fst (x, y) < 0 \<or> fst (x, y) \<ge> int (length g) \<or> snd (x, y) < 0
              \<or> snd (x, y) \<ge> int (length g))"
    using rng lg by simp
  show ?thesis
    unfolding visit_all_neighbours
    by (subst undiscovered_blob_size.simps, subst if_not_P [OF guard])
      (simp add: gc vc sc split: sum.splits prod.splits)
qed

lemma steps_in_mono: "R \<subseteq> R' \<Longrightarrow> (steps_in R)\<^sup>* \<subseteq> (steps_in R')\<^sup>*"
  by (rule rtrancl_mono) (auto simp: steps_in_def)

lemma fresh_same: "fresh n T visited visited = {}"
  by (simp add: fresh_def)

lemma explored_unchanged:
  assumes "square n visited" and "\<And>p. p \<in> P \<Longrightarrow> in_grid n p \<Longrightarrow> p \<in> marked n visited"
  shows "explored n T P visited 0 visited"
  using assms by (simp add: explored_def fresh_same)

lemma fresh_split:
  assumes "marked n v0 \<subseteq> marked n v1" and "marked n v1 \<subseteq> marked n v2"
  shows "fresh n T v0 v2 = fresh n T v0 v1 \<union> fresh n T v1 v2"
    and "fresh n T v0 v1 \<inter> fresh n T v1 v2 = {}"
  using assms by (auto simp: fresh_def)

lemma explored_then:
  assumes a: "explored n T P v0 c1 v1" and b: "explored n T Q v1 c2 v2"
  shows "explored n T (P \<union> Q) v0 (c1 + c2) v2"
proof -
  have m01: "marked n v0 \<subseteq> marked n v1" and m12: "marked n v1 \<subseteq> marked n v2"
    using a b by (simp_all add: explored_def)
  note sp = fresh_split [OF m01 m12, of T]
  have card: "c1 + c2 = int (card (fresh n T v0 v2))"
  proof -
    have "card (fresh n T v0 v2) = card (fresh n T v0 v1) + card (fresh n T v1 v2)"
      unfolding sp(1) using sp(2) by (intro card_Un_disjoint fresh_finite)
    then show ?thesis using a b by (simp add: explored_def)
  qed
  have starts: "\<forall>p \<in> P \<union> Q. in_grid n p \<longrightarrow> p \<in> marked n v2"
    using a b m12 by (auto simp: explored_def)
  have conn: "\<exists>p \<in> P \<union> Q. p \<in> fresh n T v0 v2 \<and> (p, x) \<in> (steps_in (fresh n T v0 v2))\<^sup>*"
    if x: "x \<in> fresh n T v0 v2" for x
  proof (cases "x \<in> fresh n T v0 v1")
    case True
    with a obtain p where p: "p \<in> P" "p \<in> fresh n T v0 v1"
      "(p, x) \<in> (steps_in (fresh n T v0 v1))\<^sup>*"
      unfolding explored_def by blast
    have "fresh n T v0 v1 \<subseteq> fresh n T v0 v2" using sp(1) by blast
    with p steps_in_mono [OF this] show ?thesis by blast
  next
    case False
    then have "x \<in> fresh n T v1 v2" using x sp(1) by blast
    with b obtain p where p: "p \<in> Q" "p \<in> fresh n T v1 v2"
      "(p, x) \<in> (steps_in (fresh n T v1 v2))\<^sup>*"
      unfolding explored_def by blast
    have "fresh n T v1 v2 \<subseteq> fresh n T v0 v2" using sp(1) by blast
    with p steps_in_mono [OF this] show ?thesis by blast
  qed
  have cl: "\<forall>S. closed_except T (marked n v0 \<inter> T) S \<longrightarrow> closed_except T (marked n v2 \<inter> T) S"
    using a b by (simp add: explored_def)
  have "square n v2" using b by (simp add: explored_def)
  with m01 m12 card starts conn cl show ?thesis
    unfolding explored_def by blast
qed

lemma marked_update:
  assumes v: "square n visited" and p: "in_grid n (x, y)" and m: "m \<noteq> - 1"
  shows "marked n (visited[nat x := (visited ! nat x)[nat y := m]]) = insert (x, y) (marked n visited)"
    and "square n (visited[nat x := (visited ! nat x)[nat y := m]])"
proof -
  let ?v = "visited[nat x := (visited ! nat x)[nat y := m]]"
  have rng: "0 \<le> x" "x < int n" "0 \<le> y" "y < int n" using p by (simp_all add: in_grid_def)
  have lv: "length visited = n" using v by (simp add: square_def)
  have lr: "length (visited ! nat x) = n" using v rng by (simp add: square_nth)
  show "square n ?v"
    using set_cell_square [OF set_cell_in_range [OF v rng] v] .
  have cell: "?v ! nat (fst q) ! nat (snd q) =
          (if q = (x, y) then m else visited ! nat (fst q) ! nat (snd q))"
    if "q \<in> grid_cells n" for q
  proof -
    have q: "0 \<le> fst q" "fst q < int n" "0 \<le> snd q" "snd q < int n"
      using that by (simp_all add: grid_cells_def in_grid_def)
    show ?thesis
      using q rng lv lr by (auto simp: nth_list_update prod_eq_iff)
  qed
  have "(x, y) \<in> grid_cells n" using p by (simp add: grid_cells_def)
  then show "marked n ?v = insert (x, y) (marked n visited)"
    using cell m by (auto simp: marked_def split: if_splits)
qed

lemma adjacent_neighbours:
  "adjacent (x, y) q \<longleftrightarrow> q \<in> {(x + 1, y), (x - 1, y), (x, y + 1), (x, y - 1)}"
  by (cases q) (auto simp: adjacent_def)

lemma explored_target:
  assumes v: "square n visited" and p: "in_grid n (x, y)"
    and un: "(x, y) \<notin> marked n visited" and t: "(x, y) \<in> T"
    and m1: "marked n v1 = insert (x, y) (marked n visited)"
    and e: "explored n T {(x + 1, y), (x - 1, y), (x, y + 1), (x, y - 1)} v1 c v5"
    and TG: "T \<subseteq> grid_cells n"
  shows "explored n T {(x, y)} visited (c + 1) v5"
proof -
  let ?N = "{(x + 1, y), (x - 1, y), (x, y + 1), (x, y - 1)}"
  have m15: "marked n v1 \<subseteq> marked n v5" using e by (simp add: explored_def)
  have sq: "square n v5" using e by (simp add: explored_def)
  have sub: "marked n visited \<subseteq> marked n v5" using m1 m15 by auto
  have pin: "(x, y) \<in> marked n v5" using m1 m15 by auto
  have fr: "fresh n T visited v5 = insert (x, y) (fresh n T v1 v5)"
    using m1 m15 un t by (auto simp: fresh_def)
  have notin: "(x, y) \<notin> fresh n T v1 v5" using m1 by (auto simp: fresh_def)
  have card: "c + 1 = int (card (fresh n T visited v5))"
    unfolding fr using notin fresh_finite [of n T v1 v5] e by (simp add: explored_def)
  have conn: "((x, y), a) \<in> (steps_in (fresh n T visited v5))\<^sup>*"
    if a: "a \<in> fresh n T visited v5" for a
  proof (cases "a = (x, y)")
    case True
    then show ?thesis by simp
  next
    case False
    then have "a \<in> fresh n T v1 v5" using a fr by auto
    with e obtain q where q: "q \<in> ?N" "q \<in> fresh n T v1 v5"
      "(q, a) \<in> (steps_in (fresh n T v1 v5))\<^sup>*"
      unfolding explored_def by blast
    have "fresh n T v1 v5 \<subseteq> fresh n T visited v5" using fr by auto
    from steps_in_mono [OF this] q(3)
    have qa: "(q, a) \<in> (steps_in (fresh n T visited v5))\<^sup>*" by blast
    have "adjacent (x, y) q" using q(1) by (simp add: adjacent_neighbours)
    then have "((x, y), q) \<in> steps_in (fresh n T visited v5)"
      using q(2) fr by (auto simp: steps_in_def)
    from this qa show ?thesis by (rule converse_rtrancl_into_rtrancl)
  qed
  have cl: "closed_except T (marked n v5 \<inter> T) S"
    if c0: "closed_except T (marked n visited \<inter> T) S" for S
  proof -
    have "closed_except T (marked n v1 \<inter> T) (insert (x, y) S)"
      using c0 m1 unfolding closed_except_def by auto
    then have c5: "closed_except T (marked n v5 \<inter> T) (insert (x, y) S)"
      using e by (simp add: explored_def)
    have nb: "q \<in> marked n v5 \<inter> T" if "q \<in> T" "adjacent (x, y) q" for q
    proof -
      have "q \<in> ?N" using that(2) by (simp add: adjacent_neighbours)
      moreover have "in_grid n q" using that(1) TG by (auto simp: grid_cells_def)
      ultimately have "q \<in> marked n v5" using e unfolding explored_def by blast
      with that(1) show ?thesis by simp
    qed
    show ?thesis
      unfolding closed_except_def
    proof (intro ballI impI)
      fix a q
      assume a: "a \<in> marked n v5 \<inter> T" "a \<notin> S" and q: "q \<in> T" "adjacent a q"
      show "q \<in> marked n v5 \<inter> T"
      proof (cases "a = (x, y)")
        case True
        then show ?thesis using nb q by simp
      next
        case False
        then show ?thesis using c5 a q unfolding closed_except_def by blast
      qed
    qed
  qed
  have "\<forall>a \<in> fresh n T visited v5.
           \<exists>q \<in> {(x, y)}. q \<in> fresh n T visited v5
             \<and> (q, a) \<in> (steps_in (fresh n T visited v5))\<^sup>*"
    using conn fr by auto
  with sq sub card pin cl show ?thesis
    unfolding explored_def by blast
qed

lemma unmarked_card_mono:
  assumes "marked n v0 \<subseteq> marked n v1" and "finite T"
  shows "card (T - marked n v1) \<le> card (T - marked n v0)"
  by (rule card_mono) (use assms in auto)

lemma target_cells_finite: "finite (target_cells target g)"
  by (rule finite_subset [OF _ grid_cells_finite [of "length g"]]) (auto simp: target_cells_def)

lemma visit_all_explores:
  assumes H: "\<And>visited pos. square n visited \<Longrightarrow> card (T - marked n visited) < k \<Longrightarrow>
      \<exists>c visited'. undiscovered_blob_size k target pos g visited = Inr (c, visited')
         \<and> explored n T {pos} visited c visited'"
    and fin: "finite T"
  shows "square n visited \<Longrightarrow> card (T - marked n visited) < k \<Longrightarrow>
      \<exists>c visited'. visit_all k target g ps c0 visited = Inr (c0 + c, visited')
         \<and> explored n T (set ps) visited c visited'"
proof (induction ps arbitrary: visited c0)
  case Nil
  then show ?case using explored_unchanged [of n visited "{}" T] by simp
next
  case (Cons p ps)
  from H [OF Cons.prems, of p] obtain c1 v1 where
    call: "undiscovered_blob_size k target p g visited = Inr (c1, v1)"
    and e1: "explored n T {p} visited c1 v1"
    by blast
  have sq1: "square n v1" and m01: "marked n visited \<subseteq> marked n v1"
    using e1 by (simp_all add: explored_def)
  have k1: "card (T - marked n v1) < k"
    using unmarked_card_mono [OF m01 fin] Cons.prems(2) by simp
  from Cons.IH [OF sq1 k1, of "c0 + c1"] obtain c2 v2 where
    rest: "visit_all k target g ps (c0 + c1) v1 = Inr (c0 + c1 + c2, v2)"
    and e2: "explored n T (set ps) v1 c2 v2"
    by blast
  have "explored n T (set (p # ps)) visited (c1 + c2) v2"
    using explored_then [OF e1 e2] by simp
  moreover have "visit_all k target g (p # ps) c0 visited = Inr (c0 + (c1 + c2), v2)"
    using call rest by (simp add: add.assoc)
  ultimately show ?case by blast
qed

text \<open>
  A call that is allowed more nested calls than there are unmarked cells of the target
  colour returns: every call that recurses has marked one of them.
\<close>

lemma undiscovered_explores:
  assumes g: "square n g" and T: "T = target_cells target g"
  shows "square n visited \<Longrightarrow> card (T - marked n visited) < k \<Longrightarrow>
      \<exists>c visited'. undiscovered_blob_size k target pos g visited = Inr (c, visited')
         \<and> explored n T {pos} visited c visited'"
proof (induction k arbitrary: visited pos)
  case 0
  then show ?case by simp
next
  case (Suc k)
  obtain x y where pos: "pos = (x, y)" by (cases pos)
  have lg: "length g = n" using g by (simp add: square_def)
  have TG: "T \<subseteq> grid_cells n" by (auto simp: T target_cells_def lg)
  have fin: "finite T" unfolding T by (rule target_cells_finite)
  show ?case
  proof (cases "in_grid n (x, y)")
    case False
    have "undiscovered_blob_size (Suc k) target pos g visited = Inr (0, visited)"
      using undiscovered_outside [OF lg] False pos by simp
    moreover have "explored n T {pos} visited 0 visited"
      using Suc.prems(1) False pos by (intro explored_unchanged) auto
    ultimately show ?thesis by blast
  next
    case True
    note eq = undiscovered_inside [OF g Suc.prems(1) True, of k target]
    have cell: "(x, y) \<in> grid_cells n" using True by (simp add: grid_cells_def)
    show ?thesis
    proof (cases "visited ! nat x ! nat y \<noteq> - 1")
      case marked: True
      then have "(x, y) \<in> marked n visited" using cell by (simp add: marked_def)
      then have "explored n T {pos} visited 0 visited"
        using Suc.prems(1) pos by (intro explored_unchanged) auto
      moreover have "undiscovered_blob_size (Suc k) target pos g visited = Inr (0, visited)"
        unfolding pos eq using marked by simp
      ultimately show ?thesis by blast
    next
      case False
      then have un: "(x, y) \<notin> marked n visited" by (simp add: marked_def)
      show ?thesis
      proof (cases "g ! nat x ! nat y \<noteq> Some target")
        case other: True
        let ?v = "visited[nat x := (visited ! nat x)[nat y := 0]]"
        have mk: "marked n ?v = insert (x, y) (marked n visited)" and sq: "square n ?v"
          using marked_update [OF Suc.prems(1) True, of 0] by simp_all
        have notT: "(x, y) \<notin> T" using other by (simp add: T target_cells_def)
        have fr: "fresh n T visited ?v = {}" using mk notT by (auto simp: fresh_def)
        have same: "marked n ?v \<inter> T = marked n visited \<inter> T" using mk notT by auto
        have "explored n T {pos} visited 0 ?v"
          unfolding explored_def fr same using sq mk pos by auto
        moreover have "undiscovered_blob_size (Suc k) target pos g visited = Inr (0, ?v)"
          unfolding pos eq using False other by simp
        ultimately show ?thesis by blast
      next
        case target: False
        let ?v1 = "visited[nat x := (visited ! nat x)[nat y := 1]]"
        let ?N = "[(x + 1, y), (x - 1, y), (x, y + 1), (x, y - 1)]"
        have mk: "marked n ?v1 = insert (x, y) (marked n visited)" and sq: "square n ?v1"
          using marked_update [OF Suc.prems(1) True, of 1] by simp_all
        have inT: "(x, y) \<in> T" using target cell by (simp add: T target_cells_def lg)
        have "T - marked n ?v1 \<subset> T - marked n visited"
          unfolding mk using un inT by auto
        then have "card (T - marked n ?v1) < card (T - marked n visited)"
          by (intro psubset_card_mono) (use fin in auto)
        then have k1: "card (T - marked n ?v1) < k" using Suc.prems(2) by simp
        from visit_all_explores [where ps = ?N and ?c0.0 = 0 and T = T, OF Suc.IH fin sq k1]
        obtain c v5 where
          run: "visit_all k target g ?N 0 ?v1 = Inr (0 + c, v5)"
          and e: "explored n T (set ?N) ?v1 c v5"
          by blast
        have e': "explored n T {(x + 1, y), (x - 1, y), (x, y + 1), (x, y - 1)} ?v1 c v5"
          using e by simp
        have "explored n T {pos} visited (c + 1) v5"
          unfolding pos by (rule explored_target [OF Suc.prems(1) True un inT mk e' TG])
        moreover have "undiscovered_blob_size (Suc k) target pos g visited = Inr (c + 1, v5)"
        proof -
          have "undiscovered_blob_size (Suc k) target pos g visited =
              (case visit_all k target g ?N 0 ?v1 of
                 Inl err \<Rightarrow> Inl err
               | Inr (c, v) \<Rightarrow> Inr (c + 1, v))"
            unfolding pos eq using False target by (simp del: visit_all.simps)
          also have "\<dots> = Inr (c + 1, v5)"
            unfolding run by simp
          finally show ?thesis .
        qed
        ultimately show ?thesis by blast
      qed
    qed
  qed
qed

lemma steps_in_sym: "sym (steps_in R)"
  by (auto simp: sym_def steps_in_def adjacent_def)

lemma explored_region:
  assumes e: "explored n (target_cells target g) {pos} visited c visited'"
  shows "region target g (fresh n (target_cells target g) visited visited')"
proof -
  let ?N = "fresh n (target_cells target g) visited visited'"
  have from_pos: "(pos, a) \<in> (steps_in ?N)\<^sup>*" if "a \<in> ?N" for a
    using e that unfolding explored_def by blast
  have "sym ((steps_in ?N)\<^sup>*)" by (rule sym_rtrancl [OF steps_in_sym])
  then have to_pos: "(a, pos) \<in> (steps_in ?N)\<^sup>*" if "a \<in> ?N" for a
    using from_pos [OF that] by (auto dest: symD)
  have "(p, q) \<in> (steps_in ?N)\<^sup>*" if "p \<in> ?N" "q \<in> ?N" for p q
    using to_pos [OF that(1)] from_pos [OF that(2)] by (rule rtrancl_trans)
  moreover have "?N \<subseteq> target_cells target g" by (auto simp: fresh_def)
  ultimately show ?thesis unfolding region_def by blast
qed

lemma region_inside_closed:
  assumes cl: "closed_except T M {}" and r: "region target g R" and RT: "target_cells target g = T"
    and a: "a \<in> R" "a \<in> M"
  shows "R \<subseteq> M"
proof
  fix b assume b: "b \<in> R"
  have "(a, b) \<in> (steps_in R)\<^sup>*" using r a(1) b unfolding region_def by blast
  then show "b \<in> M"
  proof (induction rule: rtrancl_induct)
    case base
    then show ?case by (rule a(2))
  next
    case (step p q)
    have "q \<in> T" "adjacent p q" using step(2) r RT by (auto simp: steps_in_def region_def)
    with cl step(3) show ?case unfolding closed_except_def by blast
  qed
qed

lemma py_max_Max: "xs \<noteq> [] \<Longrightarrow> py_max xs = Inr (Max (set xs))"
proof (cases xs)
  case Nil
  then show "xs \<noteq> [] \<Longrightarrow> ?thesis" by simp
next
  case (Cons x ys)
  have "Max (set (x # ys)) = fold max ys x" by (rule Max.set_eq_fold)
  then show ?thesis using Cons by simp
qed

lemma blob_loop_regions:
  assumes g: "square n g" and T: "T = target_cells target g"
  shows "square n visited \<Longrightarrow> closed_except T (marked n visited \<inter> T) {} \<Longrightarrow>
    card (T - marked n visited) < depth \<Longrightarrow>
    \<exists>cs visited'. blob_loop depth target g ps final visited = Inr (final @ cs, visited')
       \<and> length cs = length ps \<and> square n visited'
       \<and> marked n visited \<subseteq> marked n visited'
       \<and> closed_except T (marked n visited' \<inter> T) {}
       \<and> (\<forall>p \<in> set ps. in_grid n (int (fst p), int (snd p))
              \<longrightarrow> (int (fst p), int (snd p)) \<in> marked n visited')
       \<and> (\<forall>c \<in> set cs. \<exists>R. region target g R \<and> c = int (card R))
       \<and> (\<forall>R. region target g R \<longrightarrow> R \<noteq> {} \<longrightarrow> R \<inter> marked n visited = {}
              \<longrightarrow> R \<subseteq> marked n visited' \<longrightarrow> (\<exists>c \<in> set cs. int (card R) \<le> c))"
proof (induction ps arbitrary: final visited)
  case Nil
  have "R = {}" if "R \<inter> marked n visited = {}" "R \<subseteq> marked n visited" for R :: "(int \<times> int) set"
    using that by auto
  then show ?case using Nil by auto
next
  case (Cons p ps)
  let ?pos = "(int (fst p), int (snd p))"
  have fin: "finite T" unfolding T by (rule target_cells_finite)
  from undiscovered_explores [OF g T Cons.prems(1) Cons.prems(3), of ?pos] obtain c1 v1 where
    call: "undiscovered_blob_size depth target ?pos g visited = Inr (c1, v1)"
    and e: "explored n T {?pos} visited c1 v1"
    by blast
  let ?N = "fresh n T visited v1"
  have sq1: "square n v1" and m01: "marked n visited \<subseteq> marked n v1"
    and c1: "c1 = int (card ?N)"
    and p1: "in_grid n ?pos \<longrightarrow> ?pos \<in> marked n v1"
    and cl1: "closed_except T (marked n v1 \<inter> T) {}"
    using e Cons.prems(2) by (simp_all add: explored_def)
  have d1: "card (T - marked n v1) < depth"
    using unmarked_card_mono [OF m01 fin] Cons.prems(3) by simp
  have reg1: "region target g ?N"
    using explored_region [OF e [unfolded T]] by (simp add: T)
  from Cons.IH [OF sq1 cl1 d1, of "final @ [c1]"] obtain cs v2 where
    run: "blob_loop depth target g ps (final @ [c1]) v1 = Inr ((final @ [c1]) @ cs, v2)"
    and len: "length cs = length ps" and sq2: "square n v2"
    and m12: "marked n v1 \<subseteq> marked n v2"
    and cl2: "closed_except T (marked n v2 \<inter> T) {}"
    and ps: "\<forall>q \<in> set ps. in_grid n (int (fst q), int (snd q))
              \<longrightarrow> (int (fst q), int (snd q)) \<in> marked n v2"
    and regs: "\<forall>c \<in> set cs. \<exists>R. region target g R \<and> c = int (card R)"
    and bound: "\<forall>R. region target g R \<longrightarrow> R \<noteq> {} \<longrightarrow> R \<inter> marked n v1 = {}
              \<longrightarrow> R \<subseteq> marked n v2 \<longrightarrow> (\<exists>c \<in> set cs. int (card R) \<le> c)"
    by blast
  have r: "blob_loop depth target g (p # ps) final visited = Inr (final @ (c1 # cs), v2)"
    using call run by simp
  have starts: "\<forall>q \<in> set (p # ps). in_grid n (int (fst q), int (snd q))
              \<longrightarrow> (int (fst q), int (snd q)) \<in> marked n v2"
    using ps p1 m12 by auto
  have regs': "\<forall>c \<in> set (c1 # cs). \<exists>R. region target g R \<and> c = int (card R)"
    using regs reg1 c1 by auto
  have bound': "\<exists>c \<in> set (c1 # cs). int (card R) \<le> c"
    if R: "region target g R" "R \<noteq> {}" "R \<inter> marked n visited = {}" "R \<subseteq> marked n v2" for R
  proof (cases "R \<inter> marked n v1 = {}")
    case True
    with bound R show ?thesis by auto
  next
    case False
    then obtain a where a: "a \<in> R" "a \<in> marked n v1" by auto
    have RT: "R \<subseteq> T" using R(1) by (simp add: region_def T)
    have "R \<subseteq> marked n v1 \<inter> T"
      using region_inside_closed [OF cl1 R(1) T [symmetric] a(1)] a RT by auto
    then have "R \<subseteq> ?N" using R(3) by (auto simp: fresh_def)
    then have "card R \<le> card ?N" by (rule card_mono [OF fresh_finite])
    then show ?thesis using c1 by simp
  qed
  from r len sq2 m01 m12 cl2 starts regs' bound' show ?case
    by (intro exI [of _ "c1 # cs"] exI [of _ v2]) auto
qed

text \<open>
  On a grid all of the target colour the flood fill started at the upper left corner
  nests one call per cell, along the cells \<open>snake n 0\<close>, \<open>snake n 1\<close>, ...: allowed no
  more nested calls than the grid has cells, it raises RecursionError.
\<close>

lemma snake_in_grid:
  assumes "k < n * n"
  shows "in_grid n (snake n k)"
proof -
  have n: "0 < n" using assms by (cases n) auto
  have "k div n < n" using assms n by (simp add: less_mult_imp_div_less)
  moreover have "k mod n < n" using n by simp
  ultimately show ?thesis by (auto simp: in_grid_def snake_def)
qed

lemma snake_inj:
  assumes n: "0 < n" and eq: "snake n j = snake n k"
  shows "j = k"
proof -
  have d: "j div n = k div n" using eq by (simp add: snake_def)
  define a where "a = j mod n"
  define b where "b = k mod n"
  have "a < n" "b < n" using n by (simp_all add: a_def b_def)
  moreover have "(if even (k div n) then a else n - 1 - a)
      = (if even (k div n) then b else n - 1 - b)"
    using eq unfolding snake_def a_def b_def d by simp
  ultimately have "a = b" by (auto split: if_splits)
  then have m: "j mod n = k mod n" by (simp add: a_def b_def)
  have "j = n * (j div n) + j mod n" by simp
  also have "\<dots> = n * (k div n) + k mod n" unfolding d m ..
  also have "\<dots> = k" by simp
  finally show ?thesis .
qed

lemma snake_step:
  assumes "0 < n"
  shows "Suc (k mod n) < n \<Longrightarrow> Suc k div n = k div n \<and> Suc k mod n = Suc (k mod n)"
    and "Suc (k mod n) = n \<Longrightarrow> Suc k div n = Suc (k div n) \<and> Suc k mod n = 0"
proof -
  show "Suc k div n = k div n \<and> Suc k mod n = Suc (k mod n)" if "Suc (k mod n) < n"
    using that by (simp add: div_Suc mod_Suc)
  show "Suc k div n = Suc (k div n) \<and> Suc k mod n = 0" if "Suc (k mod n) = n"
    using that by (simp add: div_Suc mod_Suc)
qed

lemma snake_back:
  assumes "0 < n" and "0 < k mod n"
  shows "(k - 1) div n = k div n \<and> (k - 1) mod n = k mod n - 1 \<and> k - 1 < Suc k"
proof -
  obtain j where j: "k = Suc j" using assms(2) by (cases k) auto
  have "Suc (j mod n) < n \<or> Suc (j mod n) = n"
    using assms(1) by (metis Suc_lessI mod_less_divisor)
  then show ?thesis
  proof
    assume a: "Suc (j mod n) < n"
    from snake_step(1) [OF assms(1) a] show ?thesis unfolding j by simp
  next
    assume a: "Suc (j mod n) = n"
    from snake_step(2) [OF assms(1) a] assms(2) show ?thesis unfolding j by simp
  qed
qed

lemma snake_next:
  assumes k: "Suc k < n * n" and xy: "snake n k = (x, y)"
  shows "snake n (Suc k) = (x + 1, y)
    \<or> snake n (Suc k) = (x - 1, y)
        \<and> (\<not> in_grid n (x + 1, y) \<or> (x + 1, y) \<in> snake n ` {..<Suc k})
    \<or> snake n (Suc k) = (x, y + 1)
        \<and> (\<not> in_grid n (x + 1, y) \<or> (x + 1, y) \<in> snake n ` {..<Suc k})
        \<and> (\<not> in_grid n (x - 1, y) \<or> (x - 1, y) \<in> snake n ` {..<Suc k})"
proof -
  have n: "0 < n" using k by (cases n) auto
  have m: "k mod n < n" using n by simp
  have y: "y = int (k div n)" using xy by (simp add: snake_def)
  have before: "snake n (k - 1) \<in> snake n ` {..<Suc k}" by (rule imageI) simp
  consider (a) "even (k div n)" "Suc (k mod n) < n"
    | (b) "even (k div n)" "Suc (k mod n) = n"
    | (c) "odd (k div n)" "Suc (k mod n) < n"
    | (d) "odd (k div n)" "Suc (k mod n) = n"
    using m by linarith
  then show ?thesis
  proof cases
    case a
    have x: "x = int (k mod n)" using xy a(1) by (simp add: snake_def)
    have "snake n (Suc k) = (x + 1, y)"
      using snake_step(1) [OF n a(2)] a(1) x y by (simp add: snake_def)
    then show ?thesis by simp
  next
    case b
    have x: "x = int (k mod n)" using xy b(1) by (simp add: snake_def)
    have nx: "snake n (Suc k) = (x, y + 1)"
      using snake_step(2) [OF n b(2)] b x y by (auto simp: snake_def)
    have out: "\<not> in_grid n (x + 1, y)" using x b(2) by (simp add: in_grid_def)
    have prev: "\<not> in_grid n (x - 1, y) \<or> (x - 1, y) \<in> snake n ` {..<Suc k}"
    proof (cases "0 < k mod n")
      case False
      then show ?thesis using x by (simp add: in_grid_def)
    next
      case True
      from snake_back [OF n True] b(1) x y True
      have e: "snake n (k - 1) = (x - 1, y)" by (simp add: snake_def of_nat_diff)
      show ?thesis using before unfolding e by blast
    qed
    from nx out prev show ?thesis by simp
  next
    case c
    have x: "x = int (n - 1 - k mod n)" using xy c(1) by (simp add: snake_def)
    have nx: "snake n (Suc k) = (x - 1, y)"
      using snake_step(1) [OF n c(2)] c x y by (auto simp: snake_def of_nat_diff)
    have prev: "\<not> in_grid n (x + 1, y) \<or> (x + 1, y) \<in> snake n ` {..<Suc k}"
    proof (cases "0 < k mod n")
      case False
      then show ?thesis using x n by (simp add: in_grid_def of_nat_diff)
    next
      case True
      from snake_back [OF n True] c x y True
      have e: "snake n (k - 1) = (x + 1, y)" by (auto simp: snake_def of_nat_diff)
      show ?thesis using before unfolding e by blast
    qed
    from nx prev show ?thesis by simp
  next
    case d
    have x: "x = 0" using xy d by (auto simp: snake_def)
    have nx: "snake n (Suc k) = (x, y + 1)"
      using snake_step(2) [OF n d(2)] d x y by (auto simp: snake_def)
    have out: "\<not> in_grid n (x - 1, y)" using x by (simp add: in_grid_def)
    have prev: "\<not> in_grid n (x + 1, y) \<or> (x + 1, y) \<in> snake n ` {..<Suc k}"
    proof (cases "0 < k mod n")
      case False
      then have "n = 1" using d(2) by simp
      then show ?thesis using x by (simp add: in_grid_def)
    next
      case True
      from snake_back [OF n True] d x y True
      have e: "snake n (k - 1) = (x + 1, y)" by (auto simp: snake_def of_nat_diff)
      show ?thesis using before unfolding e by blast
    qed
    from nx out prev show ?thesis by simp
  qed
qed

lemma undiscovered_skip:
  assumes g: "square n g" and v: "square n visited"
    and s: "\<not> in_grid n pos \<or> pos \<in> marked n visited"
  shows "undiscovered_blob_size (Suc d) target pos g visited = Inr (0, visited)"
proof (cases "in_grid n pos")
  case False
  have "length g = n" using g by (simp add: square_def)
  from undiscovered_outside [OF this False] show ?thesis .
next
  case True
  obtain x y where pos: "pos = (x, y)" by (cases pos)
  have "visited ! nat x ! nat y \<noteq> - 1" using s True pos by (simp add: marked_def)
  then show ?thesis
    unfolding pos using undiscovered_inside [OF g v True [unfolded pos], of d target] by simp
qed

lemma snake_overflow:
  assumes g: "square n g"
    and uni: "\<And>p. in_grid n p \<Longrightarrow> g ! nat (fst p) ! nat (snd p) = Some target"
  shows "square n visited \<Longrightarrow> marked n visited = snake n ` {..<k} \<Longrightarrow> d + k \<le> n * n \<Longrightarrow>
      undiscovered_blob_size d target (snake n k) g visited = Inl RecursionError"
proof (induction d arbitrary: k visited)
  case 0
  show ?case by (simp add: undiscovered_blob_size.simps)
next
  case (Suc d)
  note IH = Suc.IH and prems = Suc.prems
  have k: "k < n * n" using prems(3) by simp
  then have n: "0 < n" by (cases n) auto
  obtain x y where xy: "snake n k = (x, y)" by (cases "snake n k")
  have ing: "in_grid n (x, y)" using snake_in_grid [OF k] xy by simp
  have un: "(x, y) \<notin> marked n visited"
    unfolding prems(2) xy [symmetric] using snake_inj [OF n] by auto
  then have un': "visited ! nat x ! nat y = - 1"
    using ing by (simp add: marked_def grid_cells_def)
  have tg: "g ! nat x ! nat y = Some target" using uni [OF ing] by simp
  let ?v1 = "visited[nat x := (visited ! nat x)[nat y := 1]]"
  let ?N = "[(x + 1, y), (x - 1, y), (x, y + 1), (x, y - 1)]"
  have mk: "marked n ?v1 = snake n ` {..<Suc k}" and sq: "square n ?v1"
    using marked_update [OF prems(1) ing, of 1] xy prems(2)
    by (simp_all add: lessThan_Suc)
  have run: "visit_all d target g ?N 0 ?v1 = Inl RecursionError"
  proof (cases d)
    case 0
    then show ?thesis by (simp add: undiscovered_blob_size.simps)
  next
    case d: (Suc d')
    have k1: "Suc k < n * n" using prems(3) d by simp
    have nxt: "undiscovered_blob_size d target (snake n (Suc k)) g ?v1 = Inl RecursionError"
      using IH [OF sq mk] prems(3) by simp
    have skip: "undiscovered_blob_size d target q g ?v1 = Inr (0, ?v1)"
      if "\<not> in_grid n q \<or> q \<in> snake n ` {..<Suc k}" for q
      unfolding d using undiscovered_skip [OF g sq] that mk by simp
    from snake_next [OF k1 xy] consider
      (right) "snake n (Suc k) = (x + 1, y)"
      | (left) "snake n (Suc k) = (x - 1, y)"
          "\<not> in_grid n (x + 1, y) \<or> (x + 1, y) \<in> snake n ` {..<Suc k}"
      | (down) "snake n (Suc k) = (x, y + 1)"
          "\<not> in_grid n (x + 1, y) \<or> (x + 1, y) \<in> snake n ` {..<Suc k}"
          "\<not> in_grid n (x - 1, y) \<or> (x - 1, y) \<in> snake n ` {..<Suc k}"
      by blast
    then show ?thesis
    proof cases
      case right
      with nxt show ?thesis by simp
    next
      case left
      show ?thesis using nxt [unfolded left(1)] skip [OF left(2)] by simp
    next
      case down
      show ?thesis
        using nxt [unfolded down(1)] skip [OF down(2)] skip [OF down(3)] by simp
    qed
  qed
  show ?case
    unfolding xy undiscovered_inside [OF g prems(1) ing, of d target]
    using un' tg run by (simp del: visit_all.simps)
qed

lemma blob_score_uniform:
  assumes f: "flatten board = Inr g"
    and uni: "\<And>p. in_grid (length g) p \<Longrightarrow> g ! nat (fst p) ! nat (snd p) = Some target"
    and d: "d \<le> length g * length g"
  shows "blob_score d target board = Inl RecursionError"
proof -
  let ?n = "length g"
  let ?v0 = "replicate ?n (replicate ?n (- 1 :: int))"
  have sq: "square ?n g" using flatten_square [OF f] by (simp add: square_def)
  have npos: "0 < ?n" using flatten_square [OF f] side_pos [of board] by (simp add: square_def)
  have v0: "square ?n ?v0" by (rule square_replicate)
  have m0: "marked ?n ?v0 = snake ?n ` {..<0}"
    by (auto simp: marked_def grid_cells_def in_grid_def)
  have s0: "snake ?n 0 = (0, 0)" using npos by (simp add: snake_def)
  have "undiscovered_blob_size d target (0, 0) g ?v0 = Inl RecursionError"
    using snake_overflow [OF sq uni v0 m0, of d] d unfolding s0 by simp
  moreover have "[0..<?n] = 0 # [1..<?n]" using npos by (simp add: upt_conv_Cons)
  then have "loop_pairs ?n
      = (0, 0) # (map (Pair 0) [1..<?n] @ List.product [1..<?n] (0 # [1..<?n]))"
    by (simp add: loop_pairs_def)
  ultimately show ?thesis using f by (simp add: blob_score_def)
qed

text \<open>
  C2 (as amended): whenever \<open>flatten\<close> returns a grid and the interpreter allows
  \<open>BlobGoal.score\<close> more nested calls of the flood fill than the grid has cells of the
  target colour, \<open>BlobGoal.score\<close> returns, and its value is the largest size of a
  4-connected region of cells of the target colour: some region has that many cells
  and no region has more. With no cell of the target colour it is 0.
\<close>

theorem blob_score_largest_region:
  assumes "flatten board = Inr g" and "card (target_cells target g) < depth"
  shows "\<exists>s. blob_score depth target board = Inr s
           \<and> (\<exists>R. region target g R \<and> s = int (card R))
           \<and> (\<forall>R. region target g R \<longrightarrow> int (card R) \<le> s)
           \<and> (target_cells target g = {} \<longrightarrow> s = 0)"
proof -
  let ?n = "length g"
  let ?T = "target_cells target g"
  let ?v0 = "replicate ?n (replicate ?n (- 1 :: int))"
  have sq: "square ?n g" using flatten_square [OF assms(1)] by (simp add: square_def)
  have npos: "0 < ?n"
    using flatten_square [OF assms(1)] side_pos [of board] by (simp add: square_def)
  have v0: "square ?n ?v0" by (rule square_replicate)
  have m0: "marked ?n ?v0 = {}"
    by (auto simp: marked_def grid_cells_def in_grid_def)
  have cl0: "closed_except ?T (marked ?n ?v0 \<inter> ?T) {}"
    by (simp add: m0 closed_except_def)
  have d0: "card (?T - marked ?n ?v0) < depth"
    using assms(2) by (simp add: m0)
  from blob_loop_regions [OF sq refl v0 cl0 d0, of "loop_pairs ?n" "[]"] obtain cs v' where
    run: "blob_loop depth target g (loop_pairs ?n) [] ?v0 = Inr (cs, v')"
    and len: "length cs = length (loop_pairs ?n)"
    and all: "\<forall>p \<in> set (loop_pairs ?n). in_grid ?n (int (fst p), int (snd p))
              \<longrightarrow> (int (fst p), int (snd p)) \<in> marked ?n v'"
    and regs: "\<forall>c \<in> set cs. \<exists>R. region target g R \<and> c = int (card R)"
    and bound: "\<forall>R. region target g R \<longrightarrow> R \<noteq> {} \<longrightarrow> R \<inter> marked ?n ?v0 = {}
              \<longrightarrow> R \<subseteq> marked ?n v' \<longrightarrow> (\<exists>c \<in> set cs. int (card R) \<le> c)"
    by auto
  have "length cs = ?n * ?n" using len by (simp add: loop_pairs_def)
  then have ne: "cs \<noteq> []" using npos by auto
  let ?s = "Max (set cs)"
  have score: "blob_score depth target board = Inr ?s"
    using assms(1) run py_max_Max [OF ne] by (simp add: blob_score_def)
  have sin: "?s \<in> set cs" using ne by (intro Max_in) auto
  with regs obtain R0 where R0: "region target g R0" "?s = int (card R0)" by blast
  have marked_all: "grid_cells ?n \<subseteq> marked ?n v'"
  proof
    fix q assume q: "q \<in> grid_cells ?n"
    then have rng: "0 \<le> fst q" "fst q < int ?n" "0 \<le> snd q" "snd q < int ?n"
      by (simp_all add: grid_cells_def in_grid_def)
    then have "(nat (fst q), nat (snd q)) \<in> set (loop_pairs ?n)"
      by (simp add: loop_pairs_set nat_less_iff)
    from all [rule_format, OF this] q rng show "q \<in> marked ?n v'"
      by (simp add: grid_cells_def)
  qed
  have le: "int (card R) \<le> ?s" if R: "region target g R" for R
  proof (cases "R = {}")
    case True
    then show ?thesis using R0(2) by simp
  next
    case False
    have "R \<subseteq> grid_cells ?n" using R by (auto simp: region_def target_cells_def)
    then have "R \<subseteq> marked ?n v'" using marked_all by blast
    moreover have "R \<inter> marked ?n ?v0 = {}" by (simp add: m0)
    ultimately have "\<exists>c \<in> set cs. int (card R) \<le> c"
      using bound R False by blast
    then obtain c where c: "c \<in> set cs" "int (card R) \<le> c" by blast
    have "c \<le> ?s" using c(1) by (intro Max_ge) auto
    with c(2) show ?thesis by simp
  qed
  have zero: "?s = 0" if "?T = {}"
  proof -
    have "R0 = {}" using R0(1) that by (simp add: region_def)
    then show ?thesis using R0(2) by simp
  qed
  from score R0 le zero show ?thesis by blast
qed

lemma region_from:
  assumes "R \<subseteq> target_cells target g" and "\<And>q. q \<in> R \<Longrightarrow> (b, q) \<in> (steps_in R)\<^sup>*"
  shows "region target g R"
proof -
  have "sym ((steps_in R)\<^sup>*)" by (rule sym_rtrancl [OF steps_in_sym])
  then have "(p, b) \<in> (steps_in R)\<^sup>*" if "p \<in> R" for p
    using assms(2) [OF that] by (auto dest: symD)
  then have "(p, q) \<in> (steps_in R)\<^sup>*" if "p \<in> R" "q \<in> R" for p q
    using that assms(2) by (blast intro: rtrancl_trans)
  then show ?thesis using assms(1) by (simp add: region_def)
qed

lemma board_blobs_flatten: "flatten board_blobs = Inr grid_blobs"
  unfolding board_blobs_def grid_blobs_def by code_simp

lemma grid_blobs_upper_left:
  "region REAL_RED grid_blobs {(0, 0), (1, 0), (0, 1), (1, 1)}"
proof (rule region_from [where b = "(0, 0)"])
  show "{(0, 0), (1, 0), (0, 1), (1, 1)} \<subseteq> target_cells REAL_RED grid_blobs"
    by (simp add: target_cells_def grid_cells_def in_grid_def grid_blobs_def)
next
  let ?R = "{(0, 0), (1, 0), (0, 1), (1, 1)} :: (int \<times> int) set"
  have a: "((0, 0), (1, 0)) \<in> steps_in ?R" "((0, 0), (0, 1)) \<in> steps_in ?R"
    "((1, 0), (1, 1)) \<in> steps_in ?R"
    by (simp_all add: steps_in_def adjacent_def)
  fix q :: "int \<times> int" assume "q \<in> ?R"
  then consider "q = (0, 0)" | "q = (1, 0)" | "q = (0, 1)" | "q = (1, 1)" by auto
  then show "((0, 0), q) \<in> (steps_in ?R)\<^sup>*"
  proof cases
    case 1 then show ?thesis by simp
  next
    case 2 then show ?thesis using a(1) by auto
  next
    case 3 then show ?thesis using a(2) by auto
  next
    case 4 then show ?thesis using a(1) a(3) by (auto intro: rtrancl_trans)
  qed
qed

lemma grid_blobs_lower_right:
  "region REAL_RED grid_blobs {(3, 2), (2, 3), (3, 3)}"
proof (rule region_from [where b = "(3, 3)"])
  show "{(3, 2), (2, 3), (3, 3)} \<subseteq> target_cells REAL_RED grid_blobs"
    by (simp add: target_cells_def grid_cells_def in_grid_def grid_blobs_def numeral_3_eq_3
        numeral_2_eq_2)
next
  let ?R = "{(3, 2), (2, 3), (3, 3)} :: (int \<times> int) set"
  have a: "((3, 3), (3, 2)) \<in> steps_in ?R" "((3, 3), (2, 3)) \<in> steps_in ?R"
    by (simp_all add: steps_in_def adjacent_def)
  fix q :: "int \<times> int" assume "q \<in> ?R"
  then consider "q = (3, 2)" | "q = (2, 3)" | "q = (3, 3)" by auto
  then show "((3, 3), q) \<in> (steps_in ?R)\<^sup>*"
  proof cases
    case 1 then show ?thesis using a(1) by auto
  next
    case 2 then show ?thesis using a(2) by auto
  next
    case 3 then show ?thesis by simp
  qed
qed

lemma grid_blobs_red: "card (target_cells REAL_RED grid_blobs) = 7"
proof -
  have "target_cells REAL_RED grid_blobs
      = {(0, 0), (1, 0), (0, 1), (1, 1)} \<union> {(3, 2), (2, 3), (3, 3)}"
    (is "?T = ?R")
  proof
    show "?R \<subseteq> ?T"
      using grid_blobs_upper_left grid_blobs_lower_right by (simp add: region_def)
    show "?T \<subseteq> ?R"
    proof
      fix p assume p: "p \<in> ?T"
      obtain x y where xy: "p = (x, y)" by (cases p)
      have "x \<in> {0, 1, 2, 3}" "y \<in> {0, 1, 2, 3}"
        using p xy by (auto simp: target_cells_def grid_cells_def in_grid_def grid_blobs_def)
      then show "p \<in> ?R"
        using p xy
        by (auto simp: target_cells_def grid_blobs_def REAL_RED_def OLD_OLIVE_def
            numeral_3_eq_3 numeral_2_eq_2)
    qed
  qed
  then show ?thesis by simp
qed

lemma grid_blobs_blue: "target_cells PACIFIC_POINT grid_blobs = {}"
proof -
  have False if p: "p \<in> target_cells PACIFIC_POINT grid_blobs" for p
  proof -
    obtain x y where xy: "p = (x, y)" by (cases p)
    have "x \<in> {0, 1, 2, 3}" "y \<in> {0, 1, 2, 3}"
      using p xy by (auto simp: target_cells_def grid_cells_def in_grid_def grid_blobs_def)
    then show False
      using p xy
      by (auto simp: target_cells_def grid_blobs_def REAL_RED_def OLD_OLIVE_def
          PACIFIC_POINT_def numeral_3_eq_3 numeral_2_eq_2)
  qed
  then show ?thesis by blast
qed

lemma grid_cells_card: "card (grid_cells n) = n * n"
proof -
  have "grid_cells n = {0..<int n} \<times> {0..<int n}"
    by (auto simp: grid_cells_def in_grid_def)
  then show ?thesis by (simp add: card_cartesian_product)
qed

lemma grid_cells_connected:
  assumes "q \<in> grid_cells n"
  shows "((0, 0), q) \<in> (steps_in (grid_cells n))\<^sup>*"
proof -
  let ?G = "grid_cells n"
  have row: "((0, 0), (int i, 0)) \<in> (steps_in ?G)\<^sup>*" if "i < n" for i
    using that
  proof (induction i)
    case 0
    show ?case by simp
  next
    case (Suc i)
    have "((int i, 0), (int (Suc i), 0)) \<in> steps_in ?G"
      using Suc.prems by (simp add: steps_in_def adjacent_def grid_cells_def in_grid_def)
    with Suc show ?case by (auto intro: rtrancl_into_rtrancl)
  qed
  have col: "((int i, 0), (int i, int j)) \<in> (steps_in ?G)\<^sup>*" if "i < n" "j < n" for i j
    using that(2)
  proof (induction j)
    case 0
    show ?case by simp
  next
    case (Suc j)
    have "((int i, int j), (int i, int (Suc j))) \<in> steps_in ?G"
      using Suc.prems that(1) by (simp add: steps_in_def adjacent_def grid_cells_def in_grid_def)
    with Suc show ?case by (auto intro: rtrancl_into_rtrancl)
  qed
  obtain i j where q: "q = (int i, int j)" and ij: "i < n" "j < n"
  proof
    show "q = (int (nat (fst q)), int (nat (snd q)))" "nat (fst q) < n" "nat (snd q) < n"
      using assms by (auto simp: grid_cells_def in_grid_def)
  qed
  from row [OF ij(1)] col [OF ij] show ?thesis unfolding q by (rule rtrancl_trans)
qed

lemma uniform_region:
  assumes "target_cells target g = grid_cells (length g)"
  shows "region target g (grid_cells (length g))"
  by (rule region_from [where b = "(0, 0)"]) (simp_all add: assms grid_cells_connected)

lemma board_uniform_cells:
  "target_cells REAL_RED (replicate 32 (replicate 32 (Some REAL_RED))) = grid_cells 32"
  by (auto simp: target_cells_def grid_cells_def in_grid_def nat_less_iff)

lemma board_uniform_flatten:
  "flatten board_uniform = Inr (replicate 32 (replicate 32 (Some REAL_RED)))"
  unfolding board_uniform_def using flatten_leaf [of 0 5 "(0, 0)" 800 REAL_RED "[]"] by simp

theorem blob_score_largest_region_witness:
  "flatten board_blobs = Inr grid_blobs
   \<and> card (target_cells REAL_RED grid_blobs) < 8
   \<and> blob_score 8 REAL_RED board_blobs = Inr 4
   \<and> region REAL_RED grid_blobs {(0, 0), (1, 0), (0, 1), (1, 1)}
   \<and> region REAL_RED grid_blobs {(3, 2), (2, 3), (3, 3)}
   \<and> \<not> region REAL_RED grid_blobs ({(0, 0), (1, 0), (0, 1), (1, 1)} \<union> {(3, 2), (2, 3), (3, 3)})
   \<and> card (target_cells PACIFIC_POINT grid_blobs) < 1
   \<and> blob_score 1 PACIFIC_POINT board_blobs = Inr 0
   \<and> flatten board_uniform = Inr (replicate 32 (replicate 32 (Some REAL_RED)))
   \<and> card (target_cells REAL_RED (replicate 32 (replicate 32 (Some REAL_RED)))) < 1025
   \<and> blob_score 1025 REAL_RED board_uniform = Inr 1024"
proof -
  have c: "card (target_cells REAL_RED grid_blobs) < 8" by (simp add: grid_blobs_red)
  have b: "card (target_cells PACIFIC_POINT grid_blobs) < 1" by (simp add: grid_blobs_blue)
  have s: "blob_score 8 REAL_RED board_blobs = Inr 4"
    unfolding board_blobs_def by code_simp
  from blob_score_largest_region [OF board_blobs_flatten c] s
  have le: "\<forall>R. region REAL_RED grid_blobs R \<longrightarrow> int (card R) \<le> 4" by auto
  from blob_score_largest_region [OF board_blobs_flatten b] grid_blobs_blue
  have z: "blob_score 1 PACIFIC_POINT board_blobs = Inr 0" by auto
  have "card ({(0, 0), (1, 0), (0, 1), (1, 1)} \<union> {(3, 2), (2, 3), (3, 3)} :: (int \<times> int) set) = 7"
    by simp
  then have no: "\<not> region REAL_RED grid_blobs
      ({(0, 0), (1, 0), (0, 1), (1, 1)} \<union> {(3, 2), (2, 3), (3, 3)})"
    using le by fastforce
  let ?g = "replicate 32 (replicate 32 (Some REAL_RED))"
  have cu: "card (target_cells REAL_RED ?g) < 1025"
    by (simp add: board_uniform_cells grid_cells_card)
  from blob_score_largest_region [OF board_uniform_flatten cu] obtain t R where
    t: "blob_score 1025 REAL_RED board_uniform = Inr t"
    and R: "region REAL_RED ?g R" "t = int (card R)"
    and most: "\<forall>R. region REAL_RED ?g R \<longrightarrow> int (card R) \<le> t"
    by blast
  have "region REAL_RED ?g (grid_cells 32)"
    using uniform_region [of REAL_RED ?g] board_uniform_cells by simp
  with most have "1024 \<le> t" by (auto simp: grid_cells_card)
  moreover have "card R \<le> card (grid_cells 32)"
    using R(1) by (intro card_mono grid_cells_finite) (simp add: region_def board_uniform_cells)
  ultimately have u: "blob_score 1025 REAL_RED board_uniform = Inr 1024"
    using t R(2) by (simp add: grid_cells_card)
  from board_blobs_flatten c s grid_blobs_upper_left grid_blobs_lower_right no b z
    board_uniform_flatten cu u
  show ?thesis by blast
qed

text \<open>
  The leaf/children invariant alone is not enough for the blob score: on the board of
  side 2 with \<open>max_depth = 2\<close> it raises ZeroDivisionError, in \<open>flatten\<close>; and on the
  uniform board of the game's size, whose grid has 1024 red cells, it raises
  RecursionError when 1000 nested calls of the flood fill are allowed, which is more
  than the interpreter's default recursion limit of 1000 leaves \<open>BlobGoal.score\<close>.
\<close>

theorem blob_score_invariant_counterexample:
  "quadtree board_small \<and> level board_small \<le> max_depth board_small
   \<and> blob_score 1000 REAL_RED board_small = Inl ZeroDivisionError
   \<and> quadtree board_uniform \<and> level board_uniform \<le> max_depth board_uniform
   \<and> flatten board_uniform = Inr (replicate 32 (replicate 32 (Some REAL_RED)))
   \<and> blob_score 1000 REAL_RED board_uniform = Inl RecursionError"
proof -
  have a: "quadtree board_small \<and> level board_small \<le> max_depth board_small
      \<and> flatten board_small = Inl ZeroDivisionError"
    unfolding board_small_def by code_simp
  then have z: "blob_score 1000 REAL_RED board_small = Inl ZeroDivisionError"
    by (simp add: blob_score_def)
  have q: "quadtree board_uniform \<and> level board_uniform \<le> max_depth board_uniform"
    by (simp add: board_uniform_def)
  have "blob_score 1000 REAL_RED board_uniform = Inl RecursionError"
    by (rule blob_score_uniform [OF board_uniform_flatten])
      (auto simp: in_grid_def nat_less_iff)
  with a z q board_uniform_flatten show ?thesis by simp
qed

end
